theory Spec2Isabelle
  imports Main "HOL-Library.Word" "HOL-Library.Multiset"
begin

section \<open>The SIL data the performance inliner reads\<close>

text \<open>
  A shallow embedding of \<^verbatim>\<open>lib/SILOptimizer/Transforms/PerformanceInliner.cpp\<close>.
  Pointers to IR objects become the objects themselves, compared through their
  identity fields; a pointer to a function becomes a function identity that is
  looked up in the module. The C++ type \<^verbatim>\<open>unsigned\<close> is a 32-bit word, and so is
  \<^verbatim>\<open>int\<close>, read through \<open>sint\<close> where the source compares it with zero.
\<close>

type_synonym fid = nat
type_synonym bid = nat
type_synonym APInt = int
type_synonym SILType = nat
type_synonym Projection = nat
type_synonym unsigned = "32 word"
type_synonym cint = "32 word"

datatype InlineStrategy = InlineDefault | NoInline | AlwaysInline

datatype InlineSelection = Everything | NoGlobalInit | NoSemanticsAndGlobalInit

datatype BuiltinValueKind =
    BinaryPredicate nat
  | SAddOver | UAddOver | SSubOver | USubOver | SMulOver | UMulOver
  | SDiv | SRem | UDiv | URem
  | And | AShr | LShr | Or | Shl | Xor
  | Trunc | ZExt | SExt | TruncOrBitCast | ZExtOrBitCast | SExtOrBitCast
  | OtherBuiltin nat

text \<open>
  The instruction kinds the inliner distinguishes. An apply carries its resolved
  callee (absent for an indirect call) and whether it has substitutions; its
  operands are the callee value followed by the arguments. A \<^verbatim>\<open>switch_value\<close> has
  the scrutinee as operand 0 and the case values as the operands after it; the
  kind holds the case destinations and the default destination.
\<close>

datatype ValueKind =
    LoadInst
  | StoreInst
  | CopyAddrInst (isTakeOfSrc: bool)
  | IntegerLiteralInst APInt
  | BuiltinInst BuiltinValueKind
  | ApplyInst "fid option" bool
  | TryApplyInst "fid option" bool
  | FunctionRefInst fid
  | PartialApplyInst
  | ThinToThickFunctionInst
  | EnumInst nat
  | UpcastInst SILType
  | CondBranchInst bid bid
  | SwitchValueInst "bid list" "bid option"
  | SwitchEnumInst "(nat \<times> bid) list" "bid option"
  | CheckedCastBranchInst SILType bid bid
  | OtherInst nat

record SILArgument =
  argId :: nat
  argFunction :: fid
  argIndex :: nat
  isFunctionArg :: bool

datatype SILInstruction =
  SILInstruction (instId: nat) (getFunction: fid) (getKind: ValueKind)
    (getOperands: "SILValue list")
and SILValue = InstValue SILInstruction | ArgValue SILArgument

record SILBasicBlock =
  blockId :: bid
  insts :: "SILInstruction list"
  getSinglePredecessor :: "bid option"

record SILFunction =
  blocks :: "SILBasicBlock list"
  semanticsAttrs :: "string list"
  hasEffectsKind :: bool
  isGlobalInit :: bool
  isExternalDeclaration :: bool
  getInlineStrategy :: InlineStrategy
  shouldOptimize :: bool
  isFragile :: bool
  isThunk :: bool

type_synonym SILModule = "fid \<Rightarrow> SILFunction"

text \<open>
  A node of the dominator tree points to its block and to its children. The
  dominance analysis gives, for a function, the node of its entry block; the
  blocks in the tree are the blocks of that function.
\<close>

datatype DomNode = DomNode (getBlock: SILBasicBlock) (children: "DomNode list")

text \<open>
  The inliner's configuration and the services it consumes: the command-line
  option \<^verbatim>\<open>TestThreshold\<close>, the two fields of \<^verbatim>\<open>SILPerformanceInliner\<close>, the
  instruction cost table, the analyses, the projection interface, the constant
  folders, the two type relations, and the splice and dead-code services.
  \<open>NDEBUG\<close> tells whether the program is built with \<^verbatim>\<open>NDEBUG\<close>: such a build
  does not compile the \<^verbatim>\<open>assert\<close>s.
\<close>

record InlinerEnv =
  TestThreshold :: cint
  InlineCostThreshold :: cint
  WhatToInline :: InlineSelection
  instructionInlineCost :: "SILInstruction \<Rightarrow> nat"
  computeMayBindDynamicSelf :: "SILFunction \<Rightarrow> bool"
  DA :: "fid \<Rightarrow> DomNode"
  LA :: "fid \<Rightarrow> SILBasicBlock \<Rightarrow> unsigned"
  isSlowPath :: "SILBasicBlock \<Rightarrow> SILBasicBlock \<Rightarrow> bool"
  isObjectProjection :: "SILInstruction \<Rightarrow> bool"
  isAddressProjection :: "SILValue \<Rightarrow> bool"
  mkProjection :: "SILInstruction \<Rightarrow> Projection"
  getOperandForAggregate :: "Projection \<Rightarrow> SILInstruction \<Rightarrow> SILValue option"
  constantFoldComparison :: "APInt \<Rightarrow> APInt \<Rightarrow> BuiltinValueKind \<Rightarrow> APInt"
  constantFoldBinaryWithOverflow :: "APInt \<Rightarrow> APInt \<Rightarrow> BuiltinValueKind \<Rightarrow> APInt"
  constantFoldDiv :: "APInt \<Rightarrow> APInt \<Rightarrow> BuiltinValueKind \<Rightarrow> APInt"
  constantFoldBitOperation :: "APInt \<Rightarrow> APInt \<Rightarrow> BuiltinValueKind \<Rightarrow> APInt"
  constantFoldCast :: "APInt \<Rightarrow> BuiltinValueKind \<Rightarrow> APInt"
  isExactSuperclassOf :: "SILType \<Rightarrow> SILType \<Rightarrow> bool"
  isBindableToSuperclassOf :: "SILType \<Rightarrow> SILType \<Rightarrow> bool"
  inlineFunction ::
    "SILModule \<Rightarrow> fid \<Rightarrow> fid \<Rightarrow> SILInstruction \<Rightarrow> SILValue list \<Rightarrow> bool \<times> SILModule"
  recursivelyDeleteTriviallyDeadInstructions ::
    "SILModule \<Rightarrow> SILInstruction \<Rightarrow> SILModule"
  NDEBUG :: bool

section \<open>The cost model's constants\<close>

definition RemovedCallBenefit :: unsigned where
  "RemovedCallBenefit = 80"

definition ConstTerminatorBenefit :: unsigned where
  "ConstTerminatorBenefit = 2"

definition ConstCalleeBenefit :: unsigned where
  "ConstCalleeBenefit = 150"

definition LoopBenefitFactor :: unsigned where
  "LoopBenefitFactor = 40"

definition TrivialFunctionThreshold :: unsigned where
  "TrivialFunctionThreshold = 20"

definition BlockLimitDenominator :: unsigned where
  "BlockLimitDenominator = 10000"

section \<open>Costs and thresholds\<close>

text \<open>\<^verbatim>\<open>testCost\<close>: in the test model only a builtin has a cost, and it is 1.\<close>

definition testCost :: "SILInstruction \<Rightarrow> unsigned" where
  "testCost I = (case getKind I of BuiltinInst _ \<Rightarrow> 1 | _ \<Rightarrow> 0)"

text \<open>
  The threshold computation at the end of \<^verbatim>\<open>isProfitableToInline\<close> (lines 720-740):
  the test threshold in test mode, the trivial-function threshold in a thunk,
  and otherwise the benefit less the block penalty, all in \<^verbatim>\<open>unsigned\<close> arithmetic.
\<close>

definition blockMinus :: "unsigned \<Rightarrow> unsigned" where
  "blockMinus NumCallerBlocks =
     (((NumCallerBlocks * NumCallerBlocks) div BlockLimitDenominator) * NumCallerBlocks)
       div BlockLimitDenominator"

definition computeThreshold :: "unsigned \<Rightarrow> cint \<Rightarrow> bool \<Rightarrow> unsigned \<Rightarrow> unsigned" where
  "computeThreshold Benefit testThreshold callerIsThunk NumCallerBlocks =
     (if 0 \<le> sint testThreshold then testThreshold
      else if callerIsThunk then TrivialFunctionThreshold
      else if Benefit > blockMinus NumCallerBlocks + TrivialFunctionThreshold
        then Benefit - blockMinus NumCallerBlocks
        else TrivialFunctionThreshold)"

section \<open>Cold blocks\<close>

text \<open>
  The two nested loops of \<^verbatim>\<open>isProfitableInColdBlock\<close> (lines 769-783). A loop
  either leaves the function with \<^verbatim>\<open>return false\<close> or goes on with the cost so far.
\<close>

datatype 'a loop_exit = ReturnFalse | GoOn 'a

fun coldInstLoop :: "InlinerEnv \<Rightarrow> cint \<Rightarrow> SILInstruction list \<Rightarrow> unsigned \<Rightarrow> unsigned loop_exit"
where
  "coldInstLoop env testThreshold [] CalleeCost = GoOn CalleeCost"
| "coldInstLoop env testThreshold (I # rest) CalleeCost =
     (if 0 \<le> sint testThreshold then
        (let c = CalleeCost + testCost I
         in if c > 0 then ReturnFalse else coldInstLoop env testThreshold rest c)
      else
        (let c = CalleeCost + of_nat (instructionInlineCost env I)
         in if c > TrivialFunctionThreshold then ReturnFalse
            else coldInstLoop env testThreshold rest c))"

fun coldBlockLoop :: "InlinerEnv \<Rightarrow> cint \<Rightarrow> SILBasicBlock list \<Rightarrow> unsigned \<Rightarrow> unsigned loop_exit"
where
  "coldBlockLoop env testThreshold [] CalleeCost = GoOn CalleeCost"
| "coldBlockLoop env testThreshold (Block # rest) CalleeCost =
     (case coldInstLoop env testThreshold (insts Block) CalleeCost of
        ReturnFalse \<Rightarrow> ReturnFalse
      | GoOn c \<Rightarrow> coldBlockLoop env testThreshold rest c)"

definition isProfitableInColdBlock :: "InlinerEnv \<Rightarrow> SILModule \<Rightarrow> SILInstruction \<Rightarrow> fid \<Rightarrow> bool"
where
  "isProfitableInColdBlock env M site Callee =
     (if getInlineStrategy (M Callee) = AlwaysInline then True
      else if 0 \<le> sint (TestThreshold env) then False
      else (case coldBlockLoop env (TestThreshold env) (blocks (M Callee)) 0 of
              ReturnFalse \<Rightarrow> False
            | GoOn _ \<Rightarrow> True))"

section \<open>The constant tracker\<close>

text \<open>
  A function of the model that may fail to return gives \<open>None\<close>: the loops of
  the tracker follow links between instructions and need not end on an
  ill-formed function, and an operand index out of range or a failed
  \<^verbatim>\<open>assert\<close> aborts the run. In a build with \<^verbatim>\<open>NDEBUG\<close> an \<^verbatim>\<open>assert\<close> is not
  there, and the run goes on with the statement after it; where that statement
  reads through a null pointer the run is lost in both builds.
\<close>

record IntConst =
  valueIC :: APInt
  isValid :: bool
  isFromCaller :: bool

text \<open>The two constructors of \<^verbatim>\<open>IntConst\<close> (lines 76-79).\<close>

definition invalidIntConst :: IntConst where
  "invalidIntConst = \<lparr>valueIC = 0, isValid = False, isFromCaller = False\<rparr>"

definition mkIntConst :: "APInt \<Rightarrow> bool \<Rightarrow> IntConst" where
  "mkIntConst v fromCaller = \<lparr>valueIC = v, isValid = True, isFromCaller = fromCaller\<rparr>"

text \<open>
  The dense maps are partial maps: an entry that holds a null pointer and a
  missing entry read the same in the source.
\<close>

datatype ConstantTracker = ConstantTracker
  (links: "SILInstruction \<Rightarrow> SILInstruction option")
  (memoryContent: "SILValue \<Rightarrow> SILInstruction option")
  (constCache: "SILInstruction \<Rightarrow> IntConst option")
  (F: fid)
  (callerTracker: "ConstantTracker option")
  (AI: "SILInstruction option")

definition setLinks :: "ConstantTracker \<Rightarrow> (SILInstruction \<Rightarrow> SILInstruction option) \<Rightarrow> ConstantTracker"
where
  "setLinks t l = ConstantTracker l (memoryContent t) (constCache t) (F t) (callerTracker t) (AI t)"

definition setMemoryContent :: "ConstantTracker \<Rightarrow> (SILValue \<Rightarrow> SILInstruction option) \<Rightarrow> ConstantTracker"
where
  "setMemoryContent t m = ConstantTracker (links t) m (constCache t) (F t) (callerTracker t) (AI t)"

definition setConstCache :: "ConstantTracker \<Rightarrow> (SILInstruction \<Rightarrow> IntConst option) \<Rightarrow> ConstantTracker"
where
  "setConstCache t c = ConstantTracker (links t) (memoryContent t) c (F t) (callerTracker t) (AI t)"

text \<open>The constructors for the caller and for the callee (lines 170-178).\<close>

definition callerConstantTracker :: "fid \<Rightarrow> ConstantTracker" where
  "callerConstantTracker function =
     ConstantTracker (\<lambda>_. None) (\<lambda>_. None) (\<lambda>_. None) function None None"

definition calleeConstantTracker :: "fid \<Rightarrow> ConstantTracker \<Rightarrow> SILInstruction \<Rightarrow> ConstantTracker"
where
  "calleeConstantTracker function caller callerApply =
     ConstantTracker (\<lambda>_. None) (\<lambda>_. None) (\<lambda>_. None) function (Some caller) (Some callerApply)"

definition beginBlock :: "ConstantTracker \<Rightarrow> ConstantTracker" where
  "beginBlock t = setMemoryContent t (\<lambda>_. None)"

definition getOperand :: "SILInstruction \<Rightarrow> nat \<Rightarrow> SILValue option" where
  "getOperand I i = (if i < length (getOperands I) then Some (getOperands I ! i) else None)"

text \<open>The arguments of an apply are its operands after the callee.\<close>

definition getArgument :: "SILInstruction \<Rightarrow> nat \<Rightarrow> SILValue option" where
  "getArgument site i = getOperand site (Suc i)"

text \<open>
  \<^verbatim>\<open>getParam\<close> (lines 140-148): the outer \<open>None\<close> is an argument index out of
  range, the inner one the null value.
\<close>

definition getParam :: "ConstantTracker \<Rightarrow> SILValue \<Rightarrow> SILValue option option" where
  "getParam t v =
     (case v of
        ArgValue arg \<Rightarrow>
          (case AI t of
             Some site \<Rightarrow>
               if isFunctionArg arg \<and> argFunction arg = F t
               then (case getArgument site (argIndex arg) of
                       None \<Rightarrow> None
                     | Some a \<Rightarrow> Some (Some a))
               else Some None
           | None \<Rightarrow> Some None)
      | InstValue _ \<Rightarrow> Some None)"

fun getMemoryContent :: "ConstantTracker \<Rightarrow> SILValue \<Rightarrow> SILInstruction option" where
  "getMemoryContent (ConstantTracker l m c f caller site) addr =
     (case m addr of
        Some storeInst \<Rightarrow> Some storeInst
      | None \<Rightarrow>
          (case caller of
             Some ct \<Rightarrow> getMemoryContent ct addr
           | None \<Rightarrow> None))"

text \<open>
  \<^verbatim>\<open>scanProjections\<close> (lines 284-303). The projections walked through are always
  collected; a caller that passes no result vector ignores them.
\<close>

partial_function (option) scanProjections ::
  "InlinerEnv \<Rightarrow> ConstantTracker \<Rightarrow> SILValue \<Rightarrow> Projection list
     \<Rightarrow> (SILValue \<times> Projection list) option"
where
  "scanProjections env t addr Result =
     (if isAddressProjection env addr then
        (case addr of
           InstValue I \<Rightarrow>
             (case getOperand I 0 of
                None \<Rightarrow> None
              | Some a \<Rightarrow> scanProjections env t a (Result @ [mkProjection env I]))
         | ArgValue _ \<Rightarrow> None)
      else
        (case getParam t addr of
           None \<Rightarrow> None
         | Some (Some param) \<Rightarrow> scanProjections env t param Result
         | Some None \<Rightarrow> Some (addr, Result)))"

text \<open>
  The projection stack has its back at the head of the list. \<open>popProjections\<close>
  is the loop of lines 324-331: it stops with \<open>False\<close> at the first
  store projection that the stack does not end with.
\<close>

fun popProjections :: "Projection list \<Rightarrow> Projection list \<Rightarrow> bool \<times> Projection list" where
  "popProjections [] projStack = (True, projStack)"
| "popProjections (proj # rest) projStack =
     (case projStack of
        [] \<Rightarrow> (False, projStack)
      | back # below \<Rightarrow>
          if back \<noteq> proj then (False, projStack) else popProjections rest below)"

definition isLoadOrCopyAddr :: "SILInstruction \<Rightarrow> bool" where
  "isLoadOrCopyAddr I = (case getKind I of LoadInst \<Rightarrow> True | CopyAddrInst _ \<Rightarrow> True | _ \<Rightarrow> False)"

definition isCopyAddr :: "SILInstruction \<Rightarrow> bool" where
  "isCopyAddr I = (case getKind I of CopyAddrInst _ \<Rightarrow> True | _ \<Rightarrow> False)"

definition lookupLink :: "ConstantTracker \<Rightarrow> SILInstruction \<Rightarrow> SILInstruction option" where
  "lookupLink t loadInst =
     (case links t loadInst of
        Some store \<Rightarrow> Some store
      | None \<Rightarrow>
          (case callerTracker t of
             Some ct \<Rightarrow> links ct loadInst
           | None \<Rightarrow> None))"

text \<open>
  \<^verbatim>\<open>getStoredValue\<close> (lines 305-340). The projection stack is passed by reference
  in the source, so it is returned with the value, also when the value is null.
  The two \<^verbatim>\<open>assert\<close>s on the kinds of the linked instructions (lines 312 and 338)
  stop the run unless the build has \<^verbatim>\<open>NDEBUG\<close>.
\<close>

partial_function (option) getStoredValue ::
  "InlinerEnv \<Rightarrow> ConstantTracker \<Rightarrow> SILInstruction \<Rightarrow> Projection list
     \<Rightarrow> (SILValue option \<times> Projection list) option"
where
  "getStoredValue env t loadInst projStack =
     (case lookupLink t loadInst of
        None \<Rightarrow> Some (None, projStack)
      | Some store \<Rightarrow>
          if \<not> NDEBUG env \<and> \<not> isLoadOrCopyAddr loadInst then None
          else
            (case getOperand loadInst 0 of
               None \<Rightarrow> None
             | Some loadAddr \<Rightarrow>
            (case scanProjections env t loadAddr [] of
               None \<Rightarrow> None
             | Some (loadBase, loadProjections) \<Rightarrow>
            (case getOperand store 1 of
               None \<Rightarrow> None
             | Some storeAddr \<Rightarrow>
            (case scanProjections env t storeAddr [] of
               None \<Rightarrow> None
             | Some (storeBase, storeProjections) \<Rightarrow>
            (case popProjections (rev storeProjections) (rev loadProjections @ projStack) of
               (matching, stack) \<Rightarrow>
                 if \<not> matching then Some (None, stack)
                 else if getKind store = StoreInst then
                   (case getOperand store 0 of
                      None \<Rightarrow> None
                    | Some v \<Rightarrow> Some (Some v, stack))
                 else if \<not> NDEBUG env \<and> \<not> isCopyAddr store then None
                 else getStoredValue env t store stack))))))"

text \<open>\<^verbatim>\<open>getMember\<close> (lines 343-349).\<close>

definition getMember :: "InlinerEnv \<Rightarrow> SILInstruction \<Rightarrow> Projection list \<Rightarrow> SILValue option" where
  "getMember env inst projStack =
     (case projStack of
        [] \<Rightarrow> None
      | proj # _ \<Rightarrow> getOperandForAggregate env proj inst)"

text \<open>
  \<^verbatim>\<open>getDef\<close> with the projection stack (lines 351-383). The result \<open>Some None\<close>
  is the null pointer.
\<close>

partial_function (option) getDefFrom ::
  "InlinerEnv \<Rightarrow> ConstantTracker \<Rightarrow> SILValue \<Rightarrow> Projection list \<Rightarrow> SILInstruction option option"
where
  "getDefFrom env t val projStack =
     (case val of
        InstValue inst \<Rightarrow>
          if isObjectProjection env inst then
            (case getOperand inst 0 of
               None \<Rightarrow> None
             | Some v \<Rightarrow> getDefFrom env t v (mkProjection env inst # projStack))
          else
            (case getMember env inst projStack of
               Some member \<Rightarrow> getDefFrom env t member (tl projStack)
             | None \<Rightarrow>
                 (case getStoredValue env t inst projStack of
                    None \<Rightarrow> None
                  | Some (Some loadedVal, stack) \<Rightarrow> getDefFrom env t loadedVal stack
                  | Some (None, stack) \<Rightarrow>
                      if getKind inst = ThinToThickFunctionInst then
                        (case getOperand inst 0 of
                           None \<Rightarrow> None
                         | Some v \<Rightarrow> getDefFrom env t v stack)
                      else Some (Some inst)))
      | ArgValue _ \<Rightarrow>
          (case getParam t val of
             None \<Rightarrow> None
           | Some (Some param) \<Rightarrow> getDefFrom env t param projStack
           | Some None \<Rightarrow> Some None))"

definition getDef :: "InlinerEnv \<Rightarrow> ConstantTracker \<Rightarrow> SILValue \<Rightarrow> SILInstruction option option"
where
  "getDef env t val = getDefFrom env t val []"

definition getDefInCaller ::
  "InlinerEnv \<Rightarrow> ConstantTracker \<Rightarrow> SILValue \<Rightarrow> SILInstruction option option"
where
  "getDefInCaller env t val =
     (case getDef env t val of
        None \<Rightarrow> None
      | Some None \<Rightarrow> Some None
      | Some (Some def) \<Rightarrow> if getFunction def \<noteq> F t then Some (Some def) else Some None)"

text \<open>\<^verbatim>\<open>trackInst\<close> (lines 263-282).\<close>

definition trackInst :: "InlinerEnv \<Rightarrow> ConstantTracker \<Rightarrow> SILInstruction \<Rightarrow> ConstantTracker option"
where
  "trackInst env t inst =
     (case getKind inst of
        LoadInst \<Rightarrow>
          (case getOperand inst 0 of
             None \<Rightarrow> None
           | Some a \<Rightarrow>
          (case scanProjections env t a [] of
             None \<Rightarrow> None
           | Some (baseAddr, ps) \<Rightarrow>
          (case getMemoryContent t baseAddr of
             Some loadLink \<Rightarrow> Some (setLinks t ((links t)(inst \<mapsto> loadLink)))
           | None \<Rightarrow> Some t)))
      | StoreInst \<Rightarrow>
          (case getOperand inst 1 of
             None \<Rightarrow> None
           | Some a \<Rightarrow>
          (case scanProjections env t a [] of
             None \<Rightarrow> None
           | Some (baseAddr, ps) \<Rightarrow>
               Some (setMemoryContent t ((memoryContent t)(baseAddr \<mapsto> inst)))))
      | CopyAddrInst takeOfSrc \<Rightarrow>
          if \<not> takeOfSrc then
            (case getOperand inst 0 of
               None \<Rightarrow> None
             | Some a \<Rightarrow>
            (case scanProjections env t a [] of
               None \<Rightarrow> None
             | Some (loadAddr, ps) \<Rightarrow>
            (case getMemoryContent t loadAddr of
               Some loadLink \<Rightarrow>
                 (case getOperand inst 1 of
                    None \<Rightarrow> None
                  | Some b \<Rightarrow>
                 (case scanProjections env t b [] of
                    None \<Rightarrow> None
                  | Some (storeAddr, qs) \<Rightarrow>
                      Some (setMemoryContent (setLinks t ((links t)(inst \<mapsto> loadLink)))
                             ((memoryContent t)(storeAddr \<mapsto> inst)))))
             | None \<Rightarrow> Some t)))
          else Some t
      | _ \<Rightarrow> Some t)"

text \<open>
  The case labels of the switch in \<^verbatim>\<open>getBuiltinConst\<close> (lines 388-469): the binary
  predicates, the arithmetic with overflow, the divisions, the bit operations
  and the casts. Every other builtin takes the default label.
\<close>

datatype FoldRule =
  FoldComparison | FoldBinaryWithOverflow | FoldDiv | FoldBitOperation | FoldCast | NoFold

fun foldRule :: "BuiltinValueKind \<Rightarrow> FoldRule" where
  "foldRule (BinaryPredicate _) = FoldComparison"
| "foldRule SAddOver = FoldBinaryWithOverflow"
| "foldRule UAddOver = FoldBinaryWithOverflow"
| "foldRule SSubOver = FoldBinaryWithOverflow"
| "foldRule USubOver = FoldBinaryWithOverflow"
| "foldRule SMulOver = FoldBinaryWithOverflow"
| "foldRule UMulOver = FoldBinaryWithOverflow"
| "foldRule SDiv = FoldDiv"
| "foldRule SRem = FoldDiv"
| "foldRule UDiv = FoldDiv"
| "foldRule URem = FoldDiv"
| "foldRule And = FoldBitOperation"
| "foldRule AShr = FoldBitOperation"
| "foldRule LShr = FoldBitOperation"
| "foldRule Or = FoldBitOperation"
| "foldRule Shl = FoldBitOperation"
| "foldRule Xor = FoldBitOperation"
| "foldRule Trunc = FoldCast"
| "foldRule ZExt = FoldCast"
| "foldRule SExt = FoldCast"
| "foldRule TruncOrBitCast = FoldCast"
| "foldRule ZExtOrBitCast = FoldCast"
| "foldRule SExtOrBitCast = FoldCast"
| "foldRule (OtherBuiltin _) = NoFold"

definition foldBinary :: "InlinerEnv \<Rightarrow> BuiltinValueKind \<Rightarrow> IntConst \<Rightarrow> IntConst \<Rightarrow> IntConst" where
  "foldBinary env ID lhs rhs =
     (case foldRule ID of
        FoldComparison \<Rightarrow>
          if isValid lhs \<and> isValid rhs
          then mkIntConst (constantFoldComparison env (valueIC lhs) (valueIC rhs) ID)
                 (isFromCaller lhs \<or> isFromCaller rhs)
          else invalidIntConst
      | FoldBinaryWithOverflow \<Rightarrow>
          if isValid lhs \<and> isValid rhs
          then mkIntConst (constantFoldBinaryWithOverflow env (valueIC lhs) (valueIC rhs) ID)
                 (isFromCaller lhs \<or> isFromCaller rhs)
          else invalidIntConst
      | FoldDiv \<Rightarrow>
          if isValid lhs \<and> isValid rhs \<and> valueIC rhs \<noteq> 0
          then mkIntConst (constantFoldDiv env (valueIC lhs) (valueIC rhs) ID)
                 (isFromCaller lhs \<or> isFromCaller rhs)
          else invalidIntConst
      | FoldBitOperation \<Rightarrow>
          if isValid lhs \<and> isValid rhs
          then mkIntConst (constantFoldBitOperation env (valueIC lhs) (valueIC rhs) ID)
                 (isFromCaller lhs \<or> isFromCaller rhs)
          else invalidIntConst
      | FoldCast \<Rightarrow> invalidIntConst
      | NoFold \<Rightarrow> invalidIntConst)"

definition foldCast :: "InlinerEnv \<Rightarrow> BuiltinValueKind \<Rightarrow> IntConst \<Rightarrow> IntConst" where
  "foldCast env ID v =
     (if isValid v then mkIntConst (constantFoldCast env (valueIC v) ID) (isFromCaller v)
      else invalidIntConst)"

text \<open>
  \<^verbatim>\<open>getIntConst\<close> (lines 475-497) and \<^verbatim>\<open>getBuiltinConst\<close> (lines 385-471)
  call each other; the depth grows on the way from the first to the second and
  is bounded by 10. Both return the tracker with the cache as they leave it.
\<close>

function getIntConst ::
    "InlinerEnv \<Rightarrow> ConstantTracker \<Rightarrow> SILValue \<Rightarrow> nat \<Rightarrow> (IntConst \<times> ConstantTracker) option"
  and getBuiltinConst ::
    "InlinerEnv \<Rightarrow> ConstantTracker \<Rightarrow> SILInstruction \<Rightarrow> nat \<Rightarrow> (IntConst \<times> ConstantTracker) option"
where
  "getIntConst env t val depth =
     (if depth \<ge> 10 then Some (invalidIntConst, t)
      else
        (case getDef env t val of
           None \<Rightarrow> None
         | Some None \<Rightarrow> Some (invalidIntConst, t)
         | Some (Some I) \<Rightarrow>
             (case getKind I of
                IntegerLiteralInst v \<Rightarrow> Some (mkIntConst v (getFunction I \<noteq> F t), t)
              | BuiltinInst ID \<Rightarrow>
                  (case constCache t I of
                     Some cached \<Rightarrow> Some (cached, t)
                   | None \<Rightarrow>
                       (case getBuiltinConst env t I (depth + 1) of
                          None \<Rightarrow> None
                        | Some (builtinConst, t') \<Rightarrow>
                            Some (builtinConst,
                                  setConstCache t' ((constCache t')(I \<mapsto> builtinConst)))))
              | _ \<Rightarrow> Some (invalidIntConst, t))))"
| "getBuiltinConst env t BI depth =
     (case getKind BI of
        BuiltinInst ID \<Rightarrow>
          (if foldRule ID = NoFold then Some (invalidIntConst, t)
           else if foldRule ID = FoldCast then
             (case getOperand BI 0 of
                None \<Rightarrow> None
              | Some a0 \<Rightarrow>
                  (case getIntConst env t a0 depth of
                     None \<Rightarrow> None
                   | Some (v, t1) \<Rightarrow> Some (foldCast env ID v, t1)))
           else
             (case getOperand BI 0 of
                None \<Rightarrow> None
              | Some a0 \<Rightarrow>
             (case getIntConst env t a0 depth of
                None \<Rightarrow> None
              | Some (lhs, t1) \<Rightarrow>
             (case getOperand BI 1 of
                None \<Rightarrow> None
              | Some a1 \<Rightarrow>
             (case getIntConst env t1 a1 depth of
                None \<Rightarrow> None
              | Some (rhs, t2) \<Rightarrow> Some (foldBinary env ID lhs rhs, t2))))))
      | _ \<Rightarrow> Some (invalidIntConst, t))"
  by pat_completeness auto
termination
  by (relation "measure (\<lambda>x. case x of
         Inl (env, t, v, depth) \<Rightarrow> 2 * (10 - depth)
       | Inr (env, t, BI, depth) \<Rightarrow> 2 * (10 - depth) + 1)") auto

declare getIntConst.simps [simp del] getBuiltinConst.simps [simp del]

text \<open>
  The invariant of a constant, and of the cache of a tracker: what is marked as
  coming from the caller is valid.
\<close>

definition fromCallerIsValid :: "IntConst \<Rightarrow> bool" where
  "fromCallerIsValid c = (if isFromCaller c then isValid c else True)"

definition cacheValid :: "ConstantTracker \<Rightarrow> bool" where
  "cacheValid t = (\<forall>I c. constCache t I = Some c \<longrightarrow> fromCallerIsValid c)"

section \<open>Terminator folding\<close>

text \<open>
  \<^verbatim>\<open>getTakenBlock\<close> (lines 600-654). \<open>literalOf\<close> is the cast of a case value
  to an integer literal; the cases of a \<^verbatim>\<open>switch_value\<close> pair the operands after
  the scrutinee with the case destinations.
\<close>

definition literalOf :: "SILValue \<Rightarrow> APInt option" where
  "literalOf v =
     (case v of
        InstValue IL \<Rightarrow> (case getKind IL of IntegerLiteralInst lit \<Rightarrow> Some lit | _ \<Rightarrow> None)
      | ArgValue _ \<Rightarrow> None)"

definition getCases :: "SILInstruction \<Rightarrow> bid list \<Rightarrow> (SILValue \<times> bid) list" where
  "getCases SVI dests = zip (tl (getOperands SVI)) dests"

fun switchValueCases :: "APInt \<Rightarrow> (SILValue \<times> bid) list \<Rightarrow> bid option \<Rightarrow> bid option" where
  "switchValueCases v [] dflt = dflt"
| "switchValueCases v (switchCase # rest) dflt =
     (case literalOf (fst switchCase) of
        Some lit \<Rightarrow> if v = lit then Some (snd switchCase) else switchValueCases v rest dflt
      | None \<Rightarrow> None)"

fun switchEnumCases :: "nat \<Rightarrow> (nat \<times> bid) list \<Rightarrow> bid option \<Rightarrow> bid option" where
  "switchEnumCases element [] dflt = dflt"
| "switchEnumCases element (enumCase # rest) dflt =
     (if fst enumCase = element then Some (snd enumCase)
      else switchEnumCases element rest dflt)"

definition getTakenBlock ::
  "InlinerEnv \<Rightarrow> SILInstruction \<Rightarrow> ConstantTracker \<Rightarrow> (bid option \<times> ConstantTracker) option"
where
  "getTakenBlock env term t =
     (case getKind term of
        CondBranchInst trueBB falseBB \<Rightarrow>
          (case getOperand term 0 of
             None \<Rightarrow> None
           | Some cond \<Rightarrow>
          (case getIntConst env t cond 0 of
             None \<Rightarrow> None
           | Some (condConst, t') \<Rightarrow>
               if isFromCaller condConst
               then Some (Some (if valueIC condConst \<noteq> 0 then trueBB else falseBB), t')
               else Some (None, t')))
      | SwitchValueInst dests dflt \<Rightarrow>
          (case getOperand term 0 of
             None \<Rightarrow> None
           | Some v \<Rightarrow>
          (case getIntConst env t v 0 of
             None \<Rightarrow> None
           | Some (switchConst, t') \<Rightarrow>
               if isFromCaller switchConst
               then Some (switchValueCases (valueIC switchConst) (getCases term dests) dflt, t')
               else Some (None, t')))
      | SwitchEnumInst cases dflt \<Rightarrow>
          (case getOperand term 0 of
             None \<Rightarrow> None
           | Some v \<Rightarrow>
          (case getDefInCaller env t v of
             None \<Rightarrow> None
           | Some None \<Rightarrow> Some (None, t)
           | Some (Some def) \<Rightarrow>
               (case getKind def of
                  EnumInst element \<Rightarrow> Some (switchEnumCases element cases dflt, t)
                | _ \<Rightarrow> Some (None, t))))
      | CheckedCastBranchInst castType successBB failureBB \<Rightarrow>
          (case getOperand term 0 of
             None \<Rightarrow> None
           | Some v \<Rightarrow>
          (case getDefInCaller env t v of
             None \<Rightarrow> None
           | Some None \<Rightarrow> Some (None, t)
           | Some (Some def) \<Rightarrow>
               (case getKind def of
                  UpcastInst operandType \<Rightarrow>
                    if isExactSuperclassOf env castType operandType then Some (Some successBB, t)
                    else if \<not> isBindableToSuperclassOf env operandType castType
                    then Some (Some failureBB, t)
                    else Some (None, t)
                | _ \<Rightarrow> Some (None, t))))
      | _ \<Rightarrow> Some (None, t))"

section \<open>Apply sites and eligibility\<close>

text \<open>
  The accessors of a call site read the kind of the instruction.
  \<^verbatim>\<open>FullApplySite::isa\<close> holds of an \<^verbatim>\<open>apply\<close> and of a \<^verbatim>\<open>try_apply\<close>.
\<close>

definition isFullApplySite :: "SILInstruction \<Rightarrow> bool" where
  "isFullApplySite I =
     (case getKind I of ApplyInst _ _ \<Rightarrow> True | TryApplyInst _ _ \<Rightarrow> True | _ \<Rightarrow> False)"

definition isApplyInst :: "SILInstruction \<Rightarrow> bool" where
  "isApplyInst I = (case getKind I of ApplyInst _ _ \<Rightarrow> True | _ \<Rightarrow> False)"

definition getReferencedFunction :: "SILInstruction \<Rightarrow> fid option" where
  "getReferencedFunction site =
     (case getKind site of
        ApplyInst callee _ \<Rightarrow> callee
      | TryApplyInst callee _ \<Rightarrow> callee
      | _ \<Rightarrow> None)"

definition hasSubstitutions :: "SILInstruction \<Rightarrow> bool" where
  "hasSubstitutions site =
     (case getKind site of
        ApplyInst _ subs \<Rightarrow> subs
      | TryApplyInst _ subs \<Rightarrow> subs
      | _ \<Rightarrow> False)"

definition hasSemanticsAttrs :: "SILFunction \<Rightarrow> bool" where
  "hasSemanticsAttrs f = (semanticsAttrs f \<noteq> [])"

definition hasSemanticsAttrThatStartsWith :: "SILFunction \<Rightarrow> string \<Rightarrow> bool" where
  "hasSemanticsAttrThatStartsWith f s = list_ex (\<lambda>a. take (length s) a = s) (semanticsAttrs f)"

text \<open>\<^verbatim>\<open>calleeIsSelfRecursive\<close> (lines 504-511).\<close>

definition calleeIsSelfRecursive :: "SILModule \<Rightarrow> fid \<Rightarrow> bool" where
  "calleeIsSelfRecursive M Callee =
     list_ex (\<lambda>BB. list_ex (\<lambda>I. isFullApplySite I \<and> getReferencedFunction I = Some Callee)
                      (insts BB))
       (blocks (M Callee))"

text \<open>
  \<^verbatim>\<open>getEligibleFunction\<close> (lines 514-585). The attribute test of lines 524-538
  is \<open>skippedByAttributes\<close>.
\<close>

definition skippedByAttributes :: "InlinerEnv \<Rightarrow> SILFunction \<Rightarrow> bool" where
  "skippedByAttributes env Callee =
     (if hasSemanticsAttrs Callee \<or> hasEffectsKind Callee then
        (if WhatToInline env = NoSemanticsAndGlobalInit then True
         else hasSemanticsAttrs Callee \<and> WhatToInline env \<noteq> Everything
              \<and> hasSemanticsAttrThatStartsWith Callee ''availability'')
      else if isGlobalInit Callee then WhatToInline env \<noteq> Everything
      else False)"

definition getEligibleFunction :: "InlinerEnv \<Rightarrow> SILModule \<Rightarrow> SILInstruction \<Rightarrow> fid option" where
  "getEligibleFunction env M site =
     (case getReferencedFunction site of
        None \<Rightarrow> None
      | Some Callee \<Rightarrow>
          if skippedByAttributes env (M Callee) then None
          else if blocks (M Callee) = [] \<or> isExternalDeclaration (M Callee) then None
          else if getInlineStrategy (M Callee) = NoInline then None
          else if \<not> shouldOptimize (M Callee) then None
          else if hasSubstitutions site then None
          else if computeMayBindDynamicSelf env (M Callee) then None
          else if getFunction site = Callee then None
          else if isFragile (M (getFunction site)) \<and> \<not> isFragile (M Callee) then None
          else if calleeIsSelfRecursive M Callee then None
          else Some Callee)"

text \<open>
  The rules of eligibility in the words of the specification (section 4.1), to
  be compared with \<open>getEligibleFunction\<close>. Of the three phases, one skips the
  global initializers and the callees with an \<^verbatim>\<open>availability\<close> semantics
  attribute, one skips every callee with a semantics attribute, an effects
  attribute or the global-initializer mark, and the last one skips none. The
  comments on \<^verbatim>\<open>createPerfInliner\<close>, \<^verbatim>\<open>createEarlyInliner\<close> and
  \<^verbatim>\<open>createLateInliner\<close> (lines 980-998) describe the phases in the same way.
\<close>

definition specSkippedInPhase :: "InlineSelection \<Rightarrow> SILFunction \<Rightarrow> bool" where
  "specSkippedInPhase phase Callee =
     (case phase of
        Everything \<Rightarrow> False
      | NoGlobalInit \<Rightarrow>
          isGlobalInit Callee \<or> hasSemanticsAttrThatStartsWith Callee ''availability''
      | NoSemanticsAndGlobalInit \<Rightarrow>
          hasSemanticsAttrs Callee \<or> hasEffectsKind Callee \<or> isGlobalInit Callee)"

definition specIneligible :: "InlinerEnv \<Rightarrow> SILModule \<Rightarrow> SILInstruction \<Rightarrow> bool" where
  "specIneligible env M site =
     (case getReferencedFunction site of
        None \<Rightarrow> True
      | Some Callee \<Rightarrow>
          specSkippedInPhase (WhatToInline env) (M Callee)
          \<or> blocks (M Callee) = [] \<or> isExternalDeclaration (M Callee)
          \<or> getInlineStrategy (M Callee) = NoInline
          \<or> hasSubstitutions site
          \<or> computeMayBindDynamicSelf env (M Callee)
          \<or> getFunction site = Callee
          \<or> (isFragile (M (getFunction site)) \<and> \<not> isFragile (M Callee))
          \<or> calleeIsSelfRecursive M Callee
          \<or> \<not> shouldOptimize (M Callee))"

section \<open>The dominance order\<close>

text \<open>
  Modelled from the spec: \<^verbatim>\<open>DominanceOrder\<close>, the worklist of
  \<^verbatim>\<open>swift/SIL/Dominance.h\<close> that the source only uses. It walks a dominator tree
  from a root, parents before children: \<^verbatim>\<open>getNext\<close> takes the next block from the
  worklist, \<^verbatim>\<open>pushChildrenIf\<close> appends the dominator-tree children of a block that
  satisfy a predicate, in their order, and \<^verbatim>\<open>pushChildren\<close> appends them all. The
  worklist holds the nodes of the blocks; the nodes already taken are kept in
  \<open>visited\<close>.
\<close>

record DominanceOrder =
  visited :: "DomNode list"
  worklist :: "DomNode list"

definition newDominanceOrder :: "DomNode \<Rightarrow> DominanceOrder" where
  "newDominanceOrder root = \<lparr>visited = [], worklist = [root]\<rparr>"

definition getNext :: "DominanceOrder \<Rightarrow> (DomNode \<times> DominanceOrder) option" where
  "getNext d =
     (case worklist d of
        [] \<Rightarrow> None
      | node # rest \<Rightarrow> Some (node, \<lparr>visited = visited d @ [node], worklist = rest\<rparr>))"

definition pushChildrenIf :: "DominanceOrder \<Rightarrow> DomNode \<Rightarrow> (SILBasicBlock \<Rightarrow> bool) \<Rightarrow> DominanceOrder"
where
  "pushChildrenIf d node pred =
     d\<lparr>worklist := worklist d @ filter (\<lambda>child. pred (getBlock child)) (children node)\<rparr>"

definition pushChildren :: "DominanceOrder \<Rightarrow> DomNode \<Rightarrow> DominanceOrder" where
  "pushChildren d node = pushChildrenIf d node (\<lambda>_. True)"

section \<open>The profitability of a call site\<close>

record CalleeWalk =
  constTracker :: ConstantTracker
  CalleeCost :: unsigned
  Benefit :: unsigned
  testThreshold :: cint

definition isFunctionRefOrPartialApply :: "SILInstruction \<Rightarrow> bool" where
  "isFunctionRefOrPartialApply def =
     (case getKind def of FunctionRefInst _ \<Rightarrow> True | PartialApplyInst \<Rightarrow> True | _ \<Rightarrow> False)"

text \<open>One turn of the loop over the instructions of a block (lines 684-706).\<close>

definition visitCalleeInst ::
  "InlinerEnv \<Rightarrow> fid \<Rightarrow> SILBasicBlock \<Rightarrow> CalleeWalk \<Rightarrow> SILInstruction \<Rightarrow> CalleeWalk option"
where
  "visitCalleeInst env Callee block w I =
     (case trackInst env (constTracker w) I of
        None \<Rightarrow> None
      | Some t1 \<Rightarrow>
          (let w1 = w\<lparr>constTracker := t1,
                      CalleeCost :=
                        (if 0 \<le> sint (testThreshold w) then CalleeCost w + testCost I
                         else CalleeCost w + of_nat (instructionInlineCost env I))\<rparr>
           in if isApplyInst I then
                (case getOperand I 0 of
                   None \<Rightarrow> None
                 | Some calleeValue \<Rightarrow>
                (case getDefInCaller env t1 calleeValue of
                   None \<Rightarrow> None
                 | Some None \<Rightarrow> Some w1
                 | Some (Some def) \<Rightarrow>
                     if isFunctionRefOrPartialApply def then
                       Some (w1\<lparr>Benefit := Benefit w1
                                   + (ConstCalleeBenefit + LA env Callee block * LoopBenefitFactor),
                                 testThreshold := testThreshold w1 * 2\<rparr>)
                     else Some w1))
              else Some w1))"

fun visitCalleeInsts ::
  "InlinerEnv \<Rightarrow> fid \<Rightarrow> SILBasicBlock \<Rightarrow> CalleeWalk \<Rightarrow> SILInstruction list \<Rightarrow> CalleeWalk option"
where
  "visitCalleeInsts env Callee block w [] = Some w"
| "visitCalleeInsts env Callee block w (I # rest) =
     (case visitCalleeInst env Callee block w I of
        None \<Rightarrow> None
      | Some w1 \<Rightarrow> visitCalleeInsts env Callee block w1 rest)"

text \<open>The terminator of a block is its last instruction.\<close>

definition getTerminator :: "SILBasicBlock \<Rightarrow> SILInstruction option" where
  "getTerminator block = (if insts block = [] then None else Some (last (insts block)))"

text \<open>
  The body of the loop over the blocks up to the taken block (lines 683-709):
  the instructions of the block, then the terminator.
\<close>

definition visitCalleeBlock ::
  "InlinerEnv \<Rightarrow> fid \<Rightarrow> SILBasicBlock \<Rightarrow> CalleeWalk \<Rightarrow> (bid option \<times> CalleeWalk) option"
where
  "visitCalleeBlock env Callee block w =
     (case visitCalleeInsts env Callee block
             (w\<lparr>constTracker := beginBlock (constTracker w)\<rparr>) (insts block) of
        None \<Rightarrow> None
      | Some w1 \<Rightarrow>
     (case getTerminator block of
        None \<Rightarrow> None
      | Some term \<Rightarrow>
     (case getTakenBlock env term (constTracker w1) of
        None \<Rightarrow> None
      | Some (takenBlock, t2) \<Rightarrow> Some (takenBlock, w1\<lparr>constTracker := t2\<rparr>))))"

text \<open>The predicate of lines 712-714 and the two ways to push the children.\<close>

definition notDeadAfterInlining :: "SILBasicBlock \<Rightarrow> bid \<Rightarrow> SILBasicBlock \<Rightarrow> bool" where
  "notDeadAfterInlining block takenBlock child =
     (getSinglePredecessor child \<noteq> Some (blockId block) \<or> blockId child = takenBlock)"

definition pushCalleeChildren :: "DominanceOrder \<Rightarrow> DomNode \<Rightarrow> bid option \<Rightarrow> DominanceOrder" where
  "pushCalleeChildren d node takenBlock =
     (case takenBlock of
        Some tb \<Rightarrow> pushChildrenIf d node (notDeadAfterInlining (getBlock node) tb)
      | None \<Rightarrow> pushChildren d node)"

definition addTerminatorBenefit :: "bid option \<Rightarrow> CalleeWalk \<Rightarrow> CalleeWalk" where
  "addTerminatorBenefit takenBlock w =
     (case takenBlock of
        Some tb \<Rightarrow> w\<lparr>Benefit := Benefit w + ConstTerminatorBenefit\<rparr>
      | None \<Rightarrow> w)"

lemma size_filter_children:
  "sum_list (map size (filter P ks)) < size (DomNode b ks)"
proof -
  have "sum_list (map size (filter P ks)) \<le> sum_list (map size ks)"
    by (induction ks) auto
  also have "\<dots> < size (DomNode b ks)"
    by (simp add: size_list_conv_sum_list)
  finally show ?thesis .
qed

function walkCallee ::
  "InlinerEnv \<Rightarrow> fid \<Rightarrow> DominanceOrder \<Rightarrow> CalleeWalk \<Rightarrow> (DominanceOrder \<times> CalleeWalk) option"
where
  "walkCallee env Callee domOrder w =
     (case getNext domOrder of
        None \<Rightarrow> Some (domOrder, w)
      | Some (node, d1) \<Rightarrow>
          (case visitCalleeBlock env Callee (getBlock node) w of
             None \<Rightarrow> None
           | Some (takenBlock, w1) \<Rightarrow>
               walkCallee env Callee (pushCalleeChildren d1 node takenBlock)
                 (addTerminatorBenefit takenBlock w1)))"
  by pat_completeness auto
termination
proof (relation "measure (\<lambda>(env, Callee, d, w). sum_list (map size (worklist d)))")
  show "wf (measure (\<lambda>(env, Callee, d, w). sum_list (map size (worklist d))))" by simp
next
  fix env :: InlinerEnv and Callee :: fid and domOrder w x2 node d1 x2a takenBlock w1
  assume n: "getNext domOrder = Some x2" "(node, d1) = x2"
  from n obtain rest where wl: "worklist domOrder = node # rest" and d1: "worklist d1 = rest"
    by (auto simp: getNext_def split: list.splits)
  have "sum_list (map size (worklist (pushCalleeChildren d1 node takenBlock)))
          < sum_list (map size (worklist domOrder))"
    using size_filter_children [of _ "children node" "getBlock node"]
      size_filter_children [of "\<lambda>_. True" "children node" "getBlock node"] wl d1
    by (cases node)
       (auto simp: pushCalleeChildren_def pushChildren_def pushChildrenIf_def split: option.splits)
  then show "((env, Callee, pushCalleeChildren d1 node takenBlock, addTerminatorBenefit takenBlock w1),
              (env, Callee, domOrder, w))
         \<in> measure (\<lambda>(env, Callee, d, w). sum_list (map size (worklist d)))"
    by simp
qed

declare walkCallee.simps [simp del]

text \<open>The start of the benefit (lines 677-679).\<close>

definition initialBenefit :: "InlinerEnv \<Rightarrow> unsigned \<Rightarrow> unsigned" where
  "initialBenefit env loopDepthOfAI =
     (if 0 < sint (InlineCostThreshold env) then InlineCostThreshold env else RemovedCallBenefit)
       + loopDepthOfAI * LoopBenefitFactor"

text \<open>The walk over the callee (lines 668-718), from the root of its dominator tree.\<close>

definition calleeWalk ::
  "InlinerEnv \<Rightarrow> fid \<Rightarrow> SILInstruction \<Rightarrow> unsigned \<Rightarrow> ConstantTracker
     \<Rightarrow> (DominanceOrder \<times> CalleeWalk) option"
where
  "calleeWalk env Callee site loopDepthOfAI trackerOfCaller =
     walkCallee env Callee (newDominanceOrder (DA env Callee))
       \<lparr>constTracker = calleeConstantTracker Callee trackerOfCaller site,
        CalleeCost = 0,
        Benefit = initialBenefit env loopDepthOfAI,
        testThreshold = TestThreshold env\<rparr>"





text \<open>
  \<^verbatim>\<open>isProfitableToInline\<close> (lines 657-754). The result is the decision and the
  new value of \<^verbatim>\<open>NumCallerBlocks\<close>, which the source takes by reference.
\<close>

definition isProfitableToInline ::
  "InlinerEnv \<Rightarrow> SILModule \<Rightarrow> SILInstruction \<Rightarrow> unsigned \<Rightarrow> ConstantTracker \<Rightarrow> unsigned
     \<Rightarrow> (bool \<times> unsigned) option"
where
  "isProfitableToInline env M site loopDepthOfAI trackerOfCaller NumCallerBlocks =
     (case getReferencedFunction site of
        None \<Rightarrow> None
      | Some Callee \<Rightarrow>
          if getInlineStrategy (M Callee) = AlwaysInline then Some (True, NumCallerBlocks)
          else if blocks (M Callee) = [] then None
          else
            (case calleeWalk env Callee site loopDepthOfAI trackerOfCaller of
               None \<Rightarrow> None
             | Some (d, w) \<Rightarrow>
                 if CalleeCost w > computeThreshold (Benefit w) (testThreshold w)
                                     (isThunk (M (getFunction site))) NumCallerBlocks
                 then Some (False, NumCallerBlocks)
                 else Some (True, NumCallerBlocks + of_nat (length (blocks (M Callee))))))"

section \<open>Collecting the call sites\<close>

text \<open>
  \<^verbatim>\<open>visitColdBlocks\<close> (lines 915-932): the loop over the instructions of a cold
  block, and the walk over the subtree of the dominator tree below the cold root.
  Only an \<^verbatim>\<open>apply\<close> is looked at here, not a \<^verbatim>\<open>try_apply\<close>.
\<close>

fun visitColdInsts ::
  "InlinerEnv \<Rightarrow> SILModule \<Rightarrow> SILInstruction list \<Rightarrow> SILInstruction list \<Rightarrow> SILInstruction list"
where
  "visitColdInsts env M AppliesToInline [] = AppliesToInline"
| "visitColdInsts env M AppliesToInline (I # rest) =
     (if \<not> isApplyInst I then visitColdInsts env M AppliesToInline rest
      else
        (case getEligibleFunction env M I of
           None \<Rightarrow> visitColdInsts env M AppliesToInline rest
         | Some Callee \<Rightarrow>
             if isProfitableInColdBlock env M I Callee
             then visitColdInsts env M (AppliesToInline @ [I]) rest
             else visitColdInsts env M AppliesToInline rest))"

function visitColdBlocksLoop ::
  "InlinerEnv \<Rightarrow> SILModule \<Rightarrow> DominanceOrder \<Rightarrow> SILInstruction list \<Rightarrow> SILInstruction list"
where
  "visitColdBlocksLoop env M domOrder AppliesToInline =
     (case getNext domOrder of
        None \<Rightarrow> AppliesToInline
      | Some (node, d1) \<Rightarrow>
          visitColdBlocksLoop env M (pushChildren d1 node)
            (visitColdInsts env M AppliesToInline (insts (getBlock node))))"
  by pat_completeness auto
termination
proof (relation "measure (\<lambda>(env, M, d, a). sum_list (map size (worklist d)))")
  show "wf (measure (\<lambda>(env, M, d, a). sum_list (map size (worklist d))))" by simp
next
  fix env :: InlinerEnv and M :: SILModule and domOrder and AppliesToInline :: "SILInstruction list"
    and x2 node d1
  assume n: "getNext domOrder = Some x2" "(node, d1) = x2"
  from n obtain rest where wl: "worklist domOrder = node # rest" and d1: "worklist d1 = rest"
    by (auto simp: getNext_def split: list.splits)
  have "sum_list (map size (worklist (pushChildren d1 node)))
          < sum_list (map size (worklist domOrder))"
    using size_filter_children [of "\<lambda>_. True" "children node" "getBlock node"] wl d1
    by (cases node) (auto simp: pushChildren_def pushChildrenIf_def)
  then show "((env, M, pushChildren d1 node,
               visitColdInsts env M AppliesToInline (insts (getBlock node))),
              (env, M, domOrder, AppliesToInline))
         \<in> measure (\<lambda>(env, M, d, a). sum_list (map size (worklist d)))"
    by simp
qed

declare visitColdBlocksLoop.simps [simp del]

definition visitColdBlocks ::
  "InlinerEnv \<Rightarrow> SILModule \<Rightarrow> SILInstruction list \<Rightarrow> DomNode \<Rightarrow> SILInstruction list"
where
  "visitColdBlocks env M AppliesToInline Root =
     visitColdBlocksLoop env M (newDominanceOrder Root) AppliesToInline"

text \<open>The state of the walk over the caller in \<^verbatim>\<open>collectAppliesToInline\<close>.\<close>

record CallerWalk =
  callerConstTracker :: ConstantTracker
  NumCallerBlocks :: unsigned
  InitialCandidates :: "SILInstruction list"

text \<open>One turn of the loop over the instructions of a caller block (lines 810-824).\<close>

definition visitCallerInst ::
  "InlinerEnv \<Rightarrow> SILModule \<Rightarrow> unsigned \<Rightarrow> CallerWalk \<Rightarrow> SILInstruction \<Rightarrow> CallerWalk option"
where
  "visitCallerInst env M loopDepth c I =
     (case trackInst env (callerConstTracker c) I of
        None \<Rightarrow> None
      | Some t1 \<Rightarrow>
          if \<not> isFullApplySite I then Some (c\<lparr>callerConstTracker := t1\<rparr>)
          else
            (case getEligibleFunction env M I of
               None \<Rightarrow> Some (c\<lparr>callerConstTracker := t1\<rparr>)
             | Some Callee \<Rightarrow>
                 (case isProfitableToInline env M I loopDepth t1 (NumCallerBlocks c) of
                    None \<Rightarrow> None
                  | Some (profitable, n) \<Rightarrow>
                      Some (c\<lparr>callerConstTracker := t1, NumCallerBlocks := n,
                              InitialCandidates :=
                                (if profitable then InitialCandidates c @ [I]
                                 else InitialCandidates c)\<rparr>))))"

fun visitCallerInsts ::
  "InlinerEnv \<Rightarrow> SILModule \<Rightarrow> unsigned \<Rightarrow> CallerWalk \<Rightarrow> SILInstruction list \<Rightarrow> CallerWalk option"
where
  "visitCallerInsts env M loopDepth c [] = Some c"
| "visitCallerInsts env M loopDepth c (I # rest) =
     (case visitCallerInst env M loopDepth c I of
        None \<Rightarrow> None
      | Some c1 \<Rightarrow> visitCallerInsts env M loopDepth c1 rest)"

text \<open>
  The call of \<^verbatim>\<open>pushChildrenIf\<close> of lines 825-832, whose predicate has an effect:
  a child behind a slow path is not pushed, and the cold blocks below it are
  searched at once.
\<close>

fun pushCallerChildren ::
  "InlinerEnv \<Rightarrow> SILModule \<Rightarrow> SILBasicBlock \<Rightarrow> DomNode list
     \<Rightarrow> DominanceOrder \<times> SILInstruction list \<Rightarrow> DominanceOrder \<times> SILInstruction list"
where
  "pushCallerChildren env M block [] (d, candidates) = (d, candidates)"
| "pushCallerChildren env M block (child # rest) (d, candidates) =
     (if isSlowPath env block (getBlock child)
      then pushCallerChildren env M block rest (d, visitColdBlocks env M candidates child)
      else pushCallerChildren env M block rest (d\<lparr>worklist := worklist d @ [child]\<rparr>, candidates))"

lemma worklist_pushCallerChildren:
  "worklist (fst (pushCallerChildren env M block kids (d, candidates)))
     = worklist d @ filter (\<lambda>child. \<not> isSlowPath env block (getBlock child)) kids"
  by (induction kids arbitrary: d candidates) auto

function collectLoop ::
  "InlinerEnv \<Rightarrow> SILModule \<Rightarrow> fid \<Rightarrow> DominanceOrder \<Rightarrow> CallerWalk \<Rightarrow> CallerWalk option"
where
  "collectLoop env M Caller domOrder c =
     (case getNext domOrder of
        None \<Rightarrow> Some c
      | Some (node, d1) \<Rightarrow>
          (case visitCallerInsts env M (LA env Caller (getBlock node))
                  (c\<lparr>callerConstTracker := beginBlock (callerConstTracker c)\<rparr>)
                  (insts (getBlock node)) of
             None \<Rightarrow> None
           | Some c1 \<Rightarrow>
               collectLoop env M Caller
                 (fst (pushCallerChildren env M (getBlock node) (children node)
                         (d1, InitialCandidates c1)))
                 (c1\<lparr>InitialCandidates :=
                       snd (pushCallerChildren env M (getBlock node) (children node)
                              (d1, InitialCandidates c1))\<rparr>)))"
  by pat_completeness auto
termination
proof (relation "measure (\<lambda>(env, M, Caller, d, c). sum_list (map size (worklist d)))")
  show "wf (measure (\<lambda>(env, M, Caller, d, c). sum_list (map size (worklist d))))" by simp
next
  fix env :: InlinerEnv and M :: SILModule and Caller :: fid and domOrder c x2 node d1 c1
  assume n: "getNext domOrder = Some x2" "(node, d1) = x2"
  from n obtain rest where wl: "worklist domOrder = node # rest" and d1: "worklist d1 = rest"
    by (auto simp: getNext_def split: list.splits)
  let ?d2 = "fst (pushCallerChildren env M (getBlock node) (children node)
                         (d1, InitialCandidates c1))"
  have "sum_list (map size (worklist ?d2)) < sum_list (map size (worklist domOrder))"
    using size_filter_children [of "\<lambda>child. \<not> isSlowPath env (getBlock node) (getBlock child)"
        "children node" "getBlock node"] wl d1
    by (cases node) (simp add: worklist_pushCallerChildren)
  then show "((env, M, Caller, ?d2,
               c1\<lparr>InitialCandidates :=
                     snd (pushCallerChildren env M (getBlock node) (children node)
                            (d1, InitialCandidates c1))\<rparr>),
              (env, M, Caller, domOrder, c))
         \<in> measure (\<lambda>(env, M, Caller, d, c). sum_list (map size (worklist d)))"
    by simp
qed

declare collectLoop.simps [simp del]

text \<open>
  The walk of lines 795-833 from the entry block of the caller; it gives the
  initial candidates.
\<close>

definition collectInitialCandidates ::
  "InlinerEnv \<Rightarrow> SILModule \<Rightarrow> fid \<Rightarrow> SILInstruction list option"
where
  "collectInitialCandidates env M Caller =
     (if blocks (M Caller) = [] then None
      else
        (case collectLoop env M Caller (newDominanceOrder (DA env Caller))
                \<lparr>callerConstTracker = callerConstantTracker Caller,
                 NumCallerBlocks = of_nat (length (blocks (M Caller))),
                 InitialCandidates = []\<rparr> of
           None \<Rightarrow> None
         | Some c \<Rightarrow> Some (InitialCandidates c)))"

text \<open>
  The two loops of lines 835-852. The dense map \<^verbatim>\<open>CalleeCount\<close> is keyed by the
  callee pointer, which is null for a candidate without a direct callee; such a
  candidate fails the \<^verbatim>\<open>assert\<close>, and is counted under the null key in a build
  with \<^verbatim>\<open>NDEBUG\<close>. The count is an \<^verbatim>\<open>unsigned\<close>.
\<close>

definition CallsToCalleeThreshold :: unsigned where
  "CallsToCalleeThreshold = 1024"

fun countCallees ::
  "InlinerEnv \<Rightarrow> SILInstruction list \<Rightarrow> (fid option \<Rightarrow> unsigned)
     \<Rightarrow> (fid option \<Rightarrow> unsigned) option"
where
  "countCallees env [] CalleeCount = Some CalleeCount"
| "countCallees env (site # rest) CalleeCount =
     (let Callee = getReferencedFunction site
      in if \<not> NDEBUG env \<and> Callee = None then None
         else countCallees env rest (CalleeCount(Callee := CalleeCount Callee + 1)))"

fun copyCandidates ::
  "InlinerEnv \<Rightarrow> (fid option \<Rightarrow> unsigned) \<Rightarrow> SILInstruction list \<Rightarrow> SILInstruction list
     \<Rightarrow> SILInstruction list option"
where
  "copyCandidates env CalleeCount [] Applies = Some Applies"
| "copyCandidates env CalleeCount (site # rest) Applies =
     (let Callee = getReferencedFunction site
      in if \<not> NDEBUG env \<and> Callee = None then None
         else copyCandidates env CalleeCount rest
                (if CalleeCount Callee \<le> CallsToCalleeThreshold then Applies @ [site]
                 else Applies))"

text \<open>
  \<^verbatim>\<open>collectAppliesToInline\<close> (lines 792-853). The source appends to the vector
  \<^verbatim>\<open>Applies\<close> that it is given; the result is that vector afterwards.
\<close>

definition collectAppliesToInline ::
  "InlinerEnv \<Rightarrow> SILModule \<Rightarrow> fid \<Rightarrow> SILInstruction list \<Rightarrow> SILInstruction list option"
where
  "collectAppliesToInline env M Caller Applies =
     (case collectInitialCandidates env M Caller of
        None \<Rightarrow> None
      | Some candidates \<Rightarrow>
          (case countCallees env candidates (\<lambda>_. 0) of
             None \<Rightarrow> None
           | Some CalleeCount \<Rightarrow> copyCandidates env CalleeCount candidates Applies))"

section \<open>The inline driver\<close>

text \<open>
  The part of the program that the driver changes: the module, and the statistic
  \<^verbatim>\<open>NumFunctionsInlined\<close>.
\<close>

record InlinerState =
  silModule :: SILModule
  NumFunctionsInlined :: unsigned

definition getArguments :: "SILInstruction \<Rightarrow> SILValue list" where
  "getArguments site = tl (getOperands site)"

text \<open>
  The loop of lines 874-908. A candidate without a direct callee fails the
  \<^verbatim>\<open>assert\<close> of line 876, and the read of its \<^verbatim>\<open>shouldOptimize\<close> flag through
  the null pointer otherwise. The result of the splice is only read by the
  \<^verbatim>\<open>assert\<close> of line 903: a build with \<^verbatim>\<open>NDEBUG\<close> goes on to the dead-code
  service and to the statistic when the splice has failed.
\<close>

fun inlineApplies ::
  "InlinerEnv \<Rightarrow> fid \<Rightarrow> SILInstruction list \<Rightarrow> InlinerState \<Rightarrow> InlinerState option"
where
  "inlineApplies env Caller [] st = Some st"
| "inlineApplies env Caller (site # rest) st =
     (case getReferencedFunction site of
        None \<Rightarrow> None
      | Some Callee \<Rightarrow>
          if \<not> shouldOptimize (silModule st Callee) then inlineApplies env Caller rest st
          else
            (case inlineFunction env (silModule st) Caller Callee site (getArguments site) of
               (Success, M1) \<Rightarrow>
                 if \<not> NDEBUG env \<and> \<not> Success then None
                 else inlineApplies env Caller rest
                        \<lparr>silModule = recursivelyDeleteTriviallyDeadInstructions env M1 site,
                         NumFunctionsInlined = NumFunctionsInlined st + 1\<rparr>))"

text \<open>\<^verbatim>\<open>inlineCallsIntoFunction\<close> (lines 857-911).\<close>

definition inlineCallsIntoFunction ::
  "InlinerEnv \<Rightarrow> fid \<Rightarrow> InlinerState \<Rightarrow> (bool \<times> InlinerState) option"
where
  "inlineCallsIntoFunction env Caller st =
     (if \<not> shouldOptimize (silModule st Caller) then Some (False, st)
      else
        (case collectAppliesToInline env (silModule st) Caller [] of
           None \<Rightarrow> None
         | Some AppliesToInline \<Rightarrow>
             if AppliesToInline = [] then Some (False, st)
             else
               (case inlineApplies env Caller AppliesToInline st of
                  None \<Rightarrow> None
                | Some st' \<Rightarrow> Some (True, st'))))"

section \<open>Example inputs\<close>

text \<open>
  A configuration with the defaults: no test threshold, every instruction of
  cost 1, no projections, one-block dominator trees, a build with asserts.
\<close>

definition exampleEnv :: InlinerEnv where
  "exampleEnv = \<lparr>
     TestThreshold = - 1,
     InlineCostThreshold = - 1,
     WhatToInline = Everything,
     instructionInlineCost = (\<lambda>_. 1),
     computeMayBindDynamicSelf = (\<lambda>_. False),
     DA = (\<lambda>_. DomNode \<lparr>blockId = 0, insts = [], getSinglePredecessor = None\<rparr> []),
     LA = (\<lambda>_ _. 0),
     isSlowPath = (\<lambda>_ _. False),
     isObjectProjection = (\<lambda>_. False),
     isAddressProjection = (\<lambda>_. False),
     mkProjection = instId,
     getOperandForAggregate = (\<lambda>_ _. None),
     constantFoldComparison = (\<lambda>a b _. if a = b then 1 else 0),
     constantFoldBinaryWithOverflow = (\<lambda>a b _. a + b),
     constantFoldDiv = (\<lambda>a b _. a div b),
     constantFoldBitOperation = (\<lambda>a b _. a),
     constantFoldCast = (\<lambda>a _. a),
     isExactSuperclassOf = (\<lambda>_ _. False),
     isBindableToSuperclassOf = (\<lambda>_ _. True),
     inlineFunction = (\<lambda>M _ _ _ _. (True, M)),
     recursivelyDeleteTriviallyDeadInstructions = (\<lambda>M _. M),
     NDEBUG = False
   \<rparr>"

definition emptyFunction :: SILFunction where
  "emptyFunction = \<lparr>
     blocks = [], semanticsAttrs = [], hasEffectsKind = False, isGlobalInit = False,
     isExternalDeclaration = False, getInlineStrategy = InlineDefault,
     shouldOptimize = True, isFragile = False, isThunk = False\<rparr>"

definition otherInst :: "nat \<Rightarrow> fid \<Rightarrow> SILInstruction" where
  "otherInst n f = SILInstruction n f (OtherInst 0) []"

definition twoInstCallee :: SILFunction where
  "twoInstCallee = emptyFunction\<lparr>blocks :=
     [\<lparr>blockId = 0, insts = [otherInst 1 1, otherInst 2 1], getSinglePredecessor = None\<rparr>]\<rparr>"

definition coldModule :: SILModule where
  "coldModule = (\<lambda>_. emptyFunction)(1 := twoInstCallee)"

text \<open>
  A caller (function 0) that applies a callee (function 1) to the literal 5, the
  tracker of the callee at that call site, and two \<^verbatim>\<open>switch_value\<close> terminators
  of the callee on its first argument.
\<close>

definition literalFive :: SILInstruction where
  "literalFive = SILInstruction 100 0 (IntegerLiteralInst 5) []"

definition calleeRef :: SILInstruction where
  "calleeRef = SILInstruction 101 0 (FunctionRefInst 1) []"

definition applyWithFive :: SILInstruction where
  "applyWithFive =
     SILInstruction 102 0 (ApplyInst (Some 1) False) [InstValue calleeRef, InstValue literalFive]"

definition firstArgument :: SILValue where
  "firstArgument = ArgValue \<lparr>argId = 0, argFunction = 1, argIndex = 0, isFunctionArg = True\<rparr>"

definition trackerOfCallee :: ConstantTracker where
  "trackerOfCallee = calleeConstantTracker 1 (callerConstantTracker 0) applyWithFive"

definition mixedSwitch :: SILInstruction where
  "mixedSwitch = SILInstruction 4 1 (SwitchValueInst [10, 20] None)
     [firstArgument, InstValue (SILInstruction 3 1 (OtherInst 0) []),
      InstValue (SILInstruction 2 1 (IntegerLiteralInst 5) [])]"

definition literalSwitch :: SILInstruction where
  "literalSwitch = SILInstruction 5 1 (SwitchValueInst [10, 20] (Some 30))
     [firstArgument, InstValue (SILInstruction 1 1 (IntegerLiteralInst 1) []),
      InstValue (SILInstruction 2 1 (IntegerLiteralInst 5) [])]"

definition compareWithFive :: SILInstruction where
  "compareWithFive = SILInstruction 6 1 (BuiltinInst (BinaryPredicate 0))
     [firstArgument, InstValue (SILInstruction 2 1 (IntegerLiteralInst 5) [])]"

text \<open>
  A callee whose entry block branches on its first argument. In \<open>joinCallee\<close> the
  true block falls through to the false block, which so has two predecessors; in
  \<open>forkTree\<close> both successors have the entry block as their single
  predecessor. Each successor holds one builtin.
\<close>

definition builtinInst :: "nat \<Rightarrow> SILInstruction" where
  "builtinInst n = SILInstruction n 1 (BuiltinInst (OtherBuiltin 0)) []"

definition entryBlock :: SILBasicBlock where
  "entryBlock = \<lparr>blockId = 0,
     insts = [SILInstruction 10 1 (CondBranchInst 1 2) [firstArgument]],
     getSinglePredecessor = None\<rparr>"

definition trueBlock :: SILBasicBlock where
  "trueBlock = \<lparr>blockId = 1, insts = [builtinInst 11, otherInst 12 1],
     getSinglePredecessor = Some 0\<rparr>"

definition joinBlock :: SILBasicBlock where
  "joinBlock = \<lparr>blockId = 2, insts = [builtinInst 13, otherInst 14 1],
     getSinglePredecessor = None\<rparr>"

definition falseBlock :: SILBasicBlock where
  "falseBlock = \<lparr>blockId = 2, insts = [builtinInst 13, otherInst 14 1],
     getSinglePredecessor = Some 0\<rparr>"

definition joinTree :: DomNode where
  "joinTree = DomNode entryBlock [DomNode trueBlock [], DomNode joinBlock []]"

definition forkTree :: DomNode where
  "forkTree = DomNode entryBlock [DomNode trueBlock [], DomNode falseBlock []]"

definition joinCallee :: SILFunction where
  "joinCallee = emptyFunction\<lparr>blocks := [entryBlock, trueBlock, joinBlock]\<rparr>"

definition testEnv :: "DomNode \<Rightarrow> InlinerEnv" where
  "testEnv tree = exampleEnv\<lparr>TestThreshold := 10, DA := (\<lambda>_. tree)\<rparr>"




text \<open>
  A caller (function 0) with one block that applies a callee (function 1) to the
  literal 5, and a function (function 2) that calls itself. The configuration
  has the inlining phase, the kind of build and the splice service as
  parameters.
\<close>

definition callerBlock :: SILBasicBlock where
  "callerBlock = \<lparr>blockId = 0,
     insts = [calleeRef, literalFive, applyWithFive, otherInst 103 0],
     getSinglePredecessor = None\<rparr>"

definition selfCall :: SILInstruction where
  "selfCall = SILInstruction 201 2 (ApplyInst (Some 2) False)
     [InstValue (SILInstruction 200 2 (FunctionRefInst 2) [])]"

definition selfBlock :: SILBasicBlock where
  "selfBlock = \<lparr>blockId = 0, insts = [selfCall, otherInst 202 2],
     getSinglePredecessor = None\<rparr>"

definition callerModule :: "SILFunction \<Rightarrow> SILModule" where
  "callerModule callee = (\<lambda>_. emptyFunction)
     (0 := emptyFunction\<lparr>blocks := [callerBlock]\<rparr>,
      1 := callee,
      2 := emptyFunction\<lparr>blocks := [selfBlock]\<rparr>)"

definition callerEnv ::
  "InlineSelection \<Rightarrow> bool
     \<Rightarrow> (SILModule \<Rightarrow> fid \<Rightarrow> fid \<Rightarrow> SILInstruction \<Rightarrow> SILValue list \<Rightarrow> bool \<times> SILModule)
     \<Rightarrow> InlinerEnv"
where
  "callerEnv phase ndebug service = exampleEnv\<lparr>TestThreshold := 10,
     WhatToInline := phase,
     DA := (\<lambda>f. if f = 0 then DomNode callerBlock []
                 else if f = 1 then joinTree else DomNode selfBlock []),
     inlineFunction := service,
     NDEBUG := ndebug\<rparr>"

text \<open>
  Two splice services: one appends the blocks of the callee to the caller and
  succeeds, the other fails and leaves the module as it is.
\<close>

definition appendBlocks ::
  "SILModule \<Rightarrow> fid \<Rightarrow> fid \<Rightarrow> SILInstruction \<Rightarrow> SILValue list \<Rightarrow> bool \<times> SILModule"
where
  "appendBlocks M caller callee site args =
     (True, M(caller := (M caller)\<lparr>blocks := blocks (M caller) @ blocks (M callee)\<rparr>))"


text \<open>
  A callee that is a global initializer and also has an effects attribute.
\<close>

definition attributedGlobalInit :: SILFunction where
  "attributedGlobalInit = joinCallee\<lparr>hasEffectsKind := True, isGlobalInit := True\<rparr>"

text \<open>
  A caller whose single block applies an always-inline callee \<open>n\<close> times.
\<close>

definition repeatedSite :: "nat \<Rightarrow> SILInstruction" where
  "repeatedSite i = SILInstruction i 0 (ApplyInst (Some 1) False) [InstValue calleeRef]"

definition repeatedBlock :: "nat \<Rightarrow> SILBasicBlock" where
  "repeatedBlock n = \<lparr>blockId = 0, insts = map repeatedSite [0..<n],
     getSinglePredecessor = None\<rparr>"

definition repeatedModule :: "nat \<Rightarrow> SILModule" where
  "repeatedModule n = (\<lambda>_. emptyFunction)
     (0 := emptyFunction\<lparr>blocks := [repeatedBlock n]\<rparr>,
      1 := joinCallee\<lparr>getInlineStrategy := AlwaysInline\<rparr>)"

definition repeatedEnv :: "nat \<Rightarrow> InlinerEnv" where
  "repeatedEnv n = exampleEnv\<lparr>DA := (\<lambda>_. DomNode (repeatedBlock n) [])\<rparr>"

section \<open>The block penalty of the threshold\<close>

lemma blockMinus_bound: "unat (blockMinus n) \<le> 429496"
proof -
  have "unat (blockMinus n) = unat (((n * n) div 10000) * n) div 10000"
    by (simp add: blockMinus_def BlockLimitDenominator_def unat_div)
  also have "\<dots> \<le> (2 ^ 32 - 1) div 10000"
  proof (rule div_le_mono)
    have "unat (((n * n) div 10000) * n) < 2 ^ 32"
      using unsigned_less [of "((n * n) div 10000) * n"] by simp
    then show "unat (((n * n) div 10000) * n) \<le> 2 ^ 32 - 1" by simp
  qed
  finally show ?thesis by simp
qed

text \<open>
  In normal mode the threshold never falls below the trivial-function threshold,
  and it does not rise with the number of caller blocks as long as that number
  is at most 35020, where the products of the block penalty fit in 32 bits.
\<close>

lemma computeThreshold_floor:
  assumes "\<not> 0 \<le> sint tt"
  shows "TrivialFunctionThreshold \<le> computeThreshold b tt thunk n"
proof (cases "thunk \<or> \<not> b > blockMinus n + TrivialFunctionThreshold")
  case True
  with assms show ?thesis by (auto simp: computeThreshold_def)
next
  case False
  then have gt: "blockMinus n + 20 < b"
    by (simp add: TrivialFunctionThreshold_def)
  have s: "unat (blockMinus n + 20) = unat (blockMinus n) + 20"
    using blockMinus_bound [of n] by (simp add: unat_word_ariths)
  from gt have g: "unat (blockMinus n) + 20 < unat b"
    using s by (simp add: word_less_nat_alt)
  then have "blockMinus n \<le> b" by (simp add: word_le_nat_alt)
  then have "unat (b - blockMinus n) = unat b - unat (blockMinus n)"
    by (simp add: unat_sub)
  with g have "20 \<le> unat (b - blockMinus n)" by simp
  then have "(20 :: unsigned) \<le> b - blockMinus n"
    by (simp add: word_le_nat_alt)
  with False assms show ?thesis
    by (simp add: computeThreshold_def TrivialFunctionThreshold_def)
qed

lemma blockMinus_nat:
  assumes "unat n \<le> 35020"
  shows "unat (blockMinus n) = ((unat n * unat n) div 10000 * unat n) div 10000"
proof -
  have sq: "unat n * unat n \<le> 35020 * 35020"
    using assms assms by (rule mult_le_mono)
  then have u1: "unat (n * n) = unat n * unat n"
    by (simp add: unat_word_ariths)
  have "(unat n * unat n) div 10000 \<le> (35020 * 35020) div 10000"
    using sq by (rule div_le_mono)
  then have "(unat n * unat n) div 10000 * unat n \<le> ((35020 * 35020) div 10000) * 35020"
    using assms by (rule mult_le_mono)
  then have small: "(unat n * unat n) div 10000 * unat n < 2 ^ 32" by simp
  have "unat ((n * n) div 10000 * n) = (unat n * unat n) div 10000 * unat n"
    using small u1 by (simp add: unat_word_ariths unat_div)
  then show ?thesis
    by (simp add: blockMinus_def BlockLimitDenominator_def unat_div)
qed

lemma blockMinus_mono:
  assumes "n \<le> m" and "m \<le> 35020"
  shows "blockMinus n \<le> blockMinus m"
proof -
  from assms have nm: "unat n \<le> unat m" and m: "unat m \<le> 35020"
    by (simp_all add: word_le_nat_alt)
  then have n: "unat n \<le> 35020" by simp
  have "unat n * unat n \<le> unat m * unat m"
    using nm nm by (rule mult_le_mono)
  then have "(unat n * unat n) div 10000 \<le> (unat m * unat m) div 10000"
    by (rule div_le_mono)
  then have "(unat n * unat n) div 10000 * unat n \<le> (unat m * unat m) div 10000 * unat m"
    using nm by (rule mult_le_mono)
  then have "((unat n * unat n) div 10000 * unat n) div 10000
               \<le> ((unat m * unat m) div 10000 * unat m) div 10000"
    by (rule div_le_mono)
  then show ?thesis
    by (simp add: word_le_nat_alt blockMinus_nat [OF n] blockMinus_nat [OF m])
qed

lemma computeThreshold_antimono_upto_35020:
  assumes le: "n \<le> m" and m: "m \<le> 35020"
  shows "computeThreshold b tt thunk m
           \<le> computeThreshold b tt thunk n"
proof (cases "0 \<le> sint tt \<or> thunk")
  case True
  then show ?thesis by (auto simp: computeThreshold_def)
next
  case False
  then have neg: "\<not> 0 \<le> sint tt" and nt: "\<not> thunk" by simp_all
  have mono: "blockMinus n \<le> blockMinus m" by (rule blockMinus_mono [OF le m])
  show ?thesis
  proof (cases "b > blockMinus m + TrivialFunctionThreshold")
    case False
    then have "computeThreshold b tt thunk m = TrivialFunctionThreshold"
      using neg nt by (simp add: computeThreshold_def)
    with computeThreshold_floor [OF neg] show ?thesis by simp
  next
    case True
    have sm: "unat (blockMinus m + 20) = unat (blockMinus m) + 20"
      using blockMinus_bound [of m] by (simp add: unat_word_ariths)
    have sn: "unat (blockMinus n + 20) = unat (blockMinus n) + 20"
      using blockMinus_bound [of n] by (simp add: unat_word_ariths)
    from True have gm: "unat (blockMinus m) + 20 < unat b"
      using sm by (simp add: TrivialFunctionThreshold_def word_less_nat_alt)
    from mono have nm: "unat (blockMinus n) \<le> unat (blockMinus m)"
      by (simp add: word_le_nat_alt)
    with gm have gn: "unat (blockMinus n) + 20 < unat b" by simp
    then have tn: "b > blockMinus n + TrivialFunctionThreshold"
      using sn by (simp add: TrivialFunctionThreshold_def word_less_nat_alt)
    have "blockMinus m \<le> b" "blockMinus n \<le> b"
      using gm gn by (simp_all add: word_le_nat_alt)
    then have "unat (b - blockMinus m) = unat b - unat (blockMinus m)"
      "unat (b - blockMinus n) = unat b - unat (blockMinus n)"
      by (simp_all add: unat_sub)
    with nm have "b - blockMinus m \<le> b - blockMinus n"
      by (simp add: word_le_nat_alt)
    with True tn neg nt show ?thesis by (simp add: computeThreshold_def)
  qed
qed

text \<open>
  C5. In normal mode the threshold is meant to fall as the caller grows and to
  stay at or above the trivial-function threshold. The products of the block
  penalty are taken in 32-bit \<^verbatim>\<open>unsigned\<close> arithmetic: at 35021 caller blocks the
  second product wraps, the penalty drops from 429485 to 25, and the threshold
  for a benefit of 80 rises from 20 to 55.
\<close>

theorem computeThreshold_rises_at_35021:
  "computeThreshold 80 (- 1) False 35020 = 20 \<and> computeThreshold 80 (- 1) False 35021 = 55
   \<and> blockMinus 35020 = 429485 \<and> blockMinus 35021 = 25"
  by (simp add: computeThreshold_def blockMinus_def BlockLimitDenominator_def
      TrivialFunctionThreshold_def)

section \<open>Profitability in cold blocks\<close>

lemma all_le_Suc_split: "(\<forall>k\<le>Suc n. P k) \<longleftrightarrow> P 0 \<and> (\<forall>j\<le>n. P (Suc j))"
  by (metis Suc_le_mono le0 not0_implies_Suc)

lemma running_Cons:
  "(\<forall>k\<le>length (x # cs). (c::nat) + sum_list (take k (x # cs)) \<le> b)
     \<longleftrightarrow> c \<le> b \<and> (\<forall>k\<le>length cs. (c + x) + sum_list (take k cs) \<le> b)"
  by (simp add: all_le_Suc_split add.assoc)

lemma running_append:
  "(\<forall>k\<le>length (xs @ ys). (c::nat) + sum_list (take k (xs @ ys)) \<le> b)
     \<longleftrightarrow> (\<forall>k\<le>length xs. c + sum_list (take k xs) \<le> b)
        \<and> (\<forall>k\<le>length ys. (c + sum_list xs) + sum_list (take k ys) \<le> b)"
proof (induction xs arbitrary: c)
  case Nil
  show ?case
  proof
    assume a: "\<forall>k\<le>length ([] @ ys). c + sum_list (take k ([] @ ys)) \<le> b"
    then show "(\<forall>k\<le>length []. c + sum_list (take k []) \<le> b) \<and> (\<forall>k\<le>length ys. (c + sum_list []) + sum_list (take k ys) \<le> b)"
      by simp (use a in force)
  next
    assume "(\<forall>k\<le>length []. c + sum_list (take k []) \<le> b) \<and> (\<forall>k\<le>length ys. (c + sum_list []) + sum_list (take k ys) \<le> b)"
    then show "\<forall>k\<le>length ([] @ ys). c + sum_list (take k ([] @ ys)) \<le> b" by simp
  qed
next
  case (Cons x xs)
  have "(\<forall>k\<le>length ((x # xs) @ ys). c + sum_list (take k ((x # xs) @ ys)) \<le> b)
        \<longleftrightarrow> c \<le> b \<and> (\<forall>k\<le>length (xs @ ys). (c + x) + sum_list (take k (xs @ ys)) \<le> b)"
    using running_Cons [of x "xs @ ys" c b] by simp
  also have "\<dots> \<longleftrightarrow> c \<le> b \<and> (\<forall>k\<le>length xs. (c + x) + sum_list (take k xs) \<le> b)
        \<and> (\<forall>k\<le>length ys. ((c + x) + sum_list xs) + sum_list (take k ys) \<le> b)"
    using Cons.IH [of "c + x"] by simp
  also have "\<dots> \<longleftrightarrow> (\<forall>k\<le>length (x # xs). c + sum_list (take k (x # xs)) \<le> b)
        \<and> (\<forall>k\<le>length ys. (c + sum_list (x # xs)) + sum_list (take k ys) \<le> b)"
    using running_Cons [of x xs c b] by (simp add: add.assoc)
  finally show ?case .
qed

lemma unat_add_cost:
  assumes "unat (c::unsigned) \<le> 20" "n < 2 ^ 32 - 20"
  shows "unat (c + of_nat n) = unat c + n"
proof -
  have "unat (of_nat n :: unsigned) = n"
    using assms(2) by (simp add: unat_of_nat)
  moreover have "unat c + n < 2 ^ 32" using assms by simp
  ultimately show ?thesis
    by (simp add: unat_word_ariths)
qed

lemma coldInstLoop_normal:
  assumes neg: "\<not> 0 \<le> sint tt"
    and bound: "\<forall>I. instructionInlineCost env I < 2 ^ 32 - 20"
  shows "unat c \<le> 20 \<Longrightarrow>
    coldInstLoop env tt is c =
      (if \<forall>k\<le>length is. unat c + sum_list (take k (map (instructionInlineCost env) is)) \<le> 20
       then GoOn (c + of_nat (sum_list (map (instructionInlineCost env) is)))
       else ReturnFalse)"
proof (induction "is" arbitrary: c)
  case Nil
  then show ?case by simp
next
  case (Cons I rest)
  let ?n = "instructionInlineCost env I"
  let ?c = "c + of_nat ?n"
  have u: "unat ?c = unat c + ?n"
    using unat_add_cost [OF Cons.prems] bound by simp
  have gt: "?c > TrivialFunctionThreshold \<longleftrightarrow> unat c + ?n > 20"
    using u by (simp add: TrivialFunctionThreshold_def word_less_nat_alt)
  show ?case
  proof (cases "unat c + ?n > 20")
    case True
    then have "\<not> (\<forall>k\<le>length (I # rest). unat c + sum_list (take k (map (instructionInlineCost env) (I # rest))) \<le> 20)"
      by (auto intro!: exI [of _ 1])
    with True gt neg show ?thesis by (simp add: Let_def)
  next
    case False
    then have le: "unat ?c \<le> 20" using u by simp
    have "coldInstLoop env tt (I # rest) c = coldInstLoop env tt rest ?c"
      using False gt neg by (simp add: Let_def)
    also have "\<dots> = (if \<forall>k\<le>length rest. unat ?c + sum_list (take k (map (instructionInlineCost env) rest)) \<le> 20
       then GoOn (?c + of_nat (sum_list (map (instructionInlineCost env) rest)))
       else ReturnFalse)"
      by (rule Cons.IH [OF le])
    also have "\<dots> = (if \<forall>k\<le>length (I # rest). unat c + sum_list (take k (map (instructionInlineCost env) (I # rest))) \<le> 20
       then GoOn (c + of_nat (sum_list (map (instructionInlineCost env) (I # rest))))
       else ReturnFalse)"
      using running_Cons [of ?n "map (instructionInlineCost env) rest" "unat c" 20] u Cons.prems
      by (simp add: add.assoc)
    finally show ?thesis .
  qed
qed


lemma coldBlockLoop_normal:
  assumes neg: "\<not> 0 \<le> sint tt"
    and bound: "\<forall>I. instructionInlineCost env I < 2 ^ 32 - 20"
  shows "unat c \<le> 20 \<Longrightarrow>
    coldBlockLoop env tt bs c =
      (if \<forall>k\<le>length (concat (map insts bs)).
            unat c + sum_list (take k (map (instructionInlineCost env) (concat (map insts bs)))) \<le> 20
       then GoOn (c + of_nat (sum_list (map (instructionInlineCost env) (concat (map insts bs)))))
       else ReturnFalse)"
proof (induction bs arbitrary: c)
  case Nil
  then show ?case by simp
next
  case (Cons B rest)
  let ?f = "instructionInlineCost env"
  let ?xs = "map ?f (insts B)"
  let ?ys = "map ?f (concat (map insts rest))"
  have split: "(\<forall>k\<le>length (concat (map insts (B # rest))).
            unat c + sum_list (take k (map ?f (concat (map insts (B # rest))))) \<le> 20)
     \<longleftrightarrow> (\<forall>k\<le>length (insts B). unat c + sum_list (take k ?xs) \<le> 20)
        \<and> (\<forall>k\<le>length (concat (map insts rest)). (unat c + sum_list ?xs) + sum_list (take k ?ys) \<le> 20)"
    using running_append [of ?xs ?ys "unat c" 20] by simp
  show ?case
  proof (cases "\<forall>k\<le>length (insts B). unat c + sum_list (take k ?xs) \<le> 20")
    case False
    then have "coldInstLoop env tt (insts B) c = ReturnFalse"
      using coldInstLoop_normal [OF neg bound Cons.prems, of "insts B"] by simp
    with False split show ?thesis by simp
  next
    case True
    let ?c = "c + of_nat (sum_list ?xs)"
    have step: "coldInstLoop env tt (insts B) c = GoOn ?c"
      using coldInstLoop_normal [OF neg bound Cons.prems, of "insts B"] True by simp
    from True have tot: "unat c + sum_list ?xs \<le> 20"
      by (metis order_refl take_all length_map)
    then have "sum_list ?xs < 2 ^ 32 - 20" by simp
    then have u: "unat ?c = unat c + sum_list ?xs"
      using unat_add_cost [OF Cons.prems] by simp
    then have le: "unat ?c \<le> 20" using tot by simp
    have "coldBlockLoop env tt (B # rest) c = coldBlockLoop env tt rest ?c"
      using step by simp
    also have "\<dots> = (if \<forall>k\<le>length (concat (map insts rest)).
            unat ?c + sum_list (take k ?ys) \<le> 20
       then GoOn (?c + of_nat (sum_list ?ys)) else ReturnFalse)"
      by (rule Cons.IH [OF le])
    finally show ?thesis
      using split True u by (simp add: add.assoc)
  qed
qed

text \<open>
  C6. \<^verbatim>\<open>isProfitableInColdBlock\<close> accepts a call site exactly when the callee is
  always-inline, or the test threshold is off and no running sum of the
  instruction costs, taken over all blocks of the callee in order, exceeds the
  trivial-function threshold of 20; with the test threshold on, a callee that is
  not always-inline is refused. The cost table is assumed to stay below
  \<open>2 ^ 32 - 20\<close> per instruction, so that the \<^verbatim>\<open>unsigned\<close> sum does not wrap
  before the check.
\<close>

theorem isProfitableInColdBlock_iff:
  assumes bound: "\<forall>I. instructionInlineCost env I < 2 ^ 32 - 20"
  shows "(isProfitableInColdBlock env M site Callee \<longleftrightarrow>
            getInlineStrategy (M Callee) = AlwaysInline
            \<or> (\<not> 0 \<le> sint (TestThreshold env)
               \<and> (\<forall>k\<le>length (concat (map insts (blocks (M Callee)))).
                     sum_list (take k (map (instructionInlineCost env)
                       (concat (map insts (blocks (M Callee)))))) \<le> 20)))
         \<and> (0 \<le> sint (TestThreshold env) \<and> getInlineStrategy (M Callee) \<noteq> AlwaysInline
              \<longrightarrow> \<not> isProfitableInColdBlock env M site Callee)"
proof (cases "getInlineStrategy (M Callee) = AlwaysInline")
  case True
  then show ?thesis by (simp add: isProfitableInColdBlock_def)
next
  case na: False
  show ?thesis
  proof (cases "0 \<le> sint (TestThreshold env)")
    case True
    with na show ?thesis by (simp add: isProfitableInColdBlock_def)
  next
    case False
    have "unat (0::unsigned) \<le> 20" by simp
    from coldBlockLoop_normal [OF False bound this, of "blocks (M Callee)"] na False
    show ?thesis by (simp add: isProfitableInColdBlock_def)
  qed
qed

theorem isProfitableInColdBlock_iff_witness:
  "(\<forall>I. instructionInlineCost exampleEnv I < 2 ^ 32 - 20)
   \<and> isProfitableInColdBlock exampleEnv coldModule (otherInst 9 0) 1
   \<and> \<not> isProfitableInColdBlock (exampleEnv\<lparr>TestThreshold := 5\<rparr>) coldModule (otherInst 9 0) 1"
  using isProfitableInColdBlock_iff [of exampleEnv coldModule "otherInst 9 0" 1]
    isProfitableInColdBlock_iff [of "exampleEnv\<lparr>TestThreshold := 5\<rparr>" coldModule "otherInst 9 0" 1]
  by (simp add: isProfitableInColdBlock_def exampleEnv_def coldModule_def twoInstCallee_def
      emptyFunction_def otherInst_def TrivialFunctionThreshold_def)

section \<open>Constants from the caller are valid\<close>

lemma fromCallerIsValid_invalid [simp]: "fromCallerIsValid invalidIntConst"
  by (simp add: fromCallerIsValid_def invalidIntConst_def)

lemma fromCallerIsValid_mk [simp]: "fromCallerIsValid (mkIntConst v b)"
  by (simp add: fromCallerIsValid_def mkIntConst_def)

lemma fromCallerIsValid_foldBinary [simp]: "fromCallerIsValid (foldBinary env ID lhs rhs)"
  by (simp add: foldBinary_def split: FoldRule.split)

lemma fromCallerIsValid_foldCast [simp]: "fromCallerIsValid (foldCast env ID v)"
  by (simp add: foldCast_def)

lemma cacheValid_update:
  "cacheValid t \<Longrightarrow> fromCallerIsValid c \<Longrightarrow> cacheValid (setConstCache t ((constCache t)(I \<mapsto> c)))"
  by (simp add: cacheValid_def setConstCache_def)

lemma constants_valid:
  shows "cacheValid t \<Longrightarrow> getIntConst env t val depth = Some (c, t')
           \<Longrightarrow> fromCallerIsValid c \<and> cacheValid t'"
    and "cacheValid t \<Longrightarrow> getBuiltinConst env t BI depth = Some (c, t')
           \<Longrightarrow> fromCallerIsValid c \<and> cacheValid t'"
proof (induction env t val depth and env t BI depth arbitrary: c t' and c t'
    rule: getIntConst_getBuiltinConst.induct)
  case (1 env t val depth)
  note eq = getIntConst.simps [of env t val depth]
  show ?case
  proof (cases "depth \<ge> 10")
    case True
    with "1.prems" show ?thesis by (simp add: eq)
  next
    case small: False
    show ?thesis
    proof (cases "getDef env t val")
      case None
      with small "1.prems" show ?thesis by (simp add: eq)
    next
      case (Some d)
      show ?thesis
      proof (cases d)
        case None
        with Some small "1.prems" show ?thesis by (simp add: eq)
      next
        case (Some I)
        note d = \<open>getDef env t val = Some d\<close> Some
        show ?thesis
        proof (cases "\<exists>ID. getKind I = BuiltinInst ID")
          case False
          with d small "1.prems" show ?thesis
            by (cases "getKind I") (auto simp: eq)
        next
          case True
          then obtain ID where k: "getKind I = BuiltinInst ID" by blast
          show ?thesis
          proof (cases "constCache t I")
            case (Some cached)
            with d small k "1.prems" show ?thesis
              by (auto simp: cacheValid_def eq)
          next
            case None
            from d small k None "1.prems"(2)
            obtain t1 where b: "getBuiltinConst env t I (depth + 1) = Some (c, t1)"
              and t': "t' = setConstCache t1 ((constCache t1)(I \<mapsto> c))"
              by (auto simp: eq split: option.splits)
            from "1.IH" [OF small d k None "1.prems"(1) b]
            have "fromCallerIsValid c" "cacheValid t1" by simp_all
            then show ?thesis using t' cacheValid_update by simp
          qed
        qed
      qed
    qed
  qed
next
  case (2 env t BI depth)
  note eq = getBuiltinConst.simps [of env t BI depth]
  show ?case
  proof (cases "\<exists>ID. getKind BI = BuiltinInst ID")
    case False
    with "2.prems" show ?thesis
      by (cases "getKind BI") (auto simp: eq)
  next
    case True
    then obtain ID where k: "getKind BI = BuiltinInst ID" by blast
    show ?thesis
    proof (cases "foldRule ID = NoFold")
      case True
      with k "2.prems" show ?thesis by (simp add: eq)
    next
      case nf: False
      show ?thesis
      proof (cases "foldRule ID = FoldCast")
        case True
        with k nf "2.prems"(2)
        obtain a0 v where a0: "getOperand BI 0 = Some a0"
          and g: "getIntConst env t a0 depth = Some (v, t')"
          and c: "c = foldCast env ID v"
          by (auto simp: eq split: option.splits)
        from "2.IH"(1) [OF k nf True a0 "2.prems"(1) g] c show ?thesis by simp
      next
        case nc: False
        with k nf "2.prems"(2)
        obtain a0 lhs t1 a1 rhs where a0: "getOperand BI 0 = Some a0"
          and g0: "getIntConst env t a0 depth = Some (lhs, t1)"
          and a1: "getOperand BI 1 = Some a1"
          and g1: "getIntConst env t1 a1 depth = Some (rhs, t')"
          and c: "c = foldBinary env ID lhs rhs"
          by (auto simp: eq split: option.splits)
        from "2.IH"(2) [OF k nf nc a0 "2.prems"(1) g0] have v1: "cacheValid t1" by simp
        from "2.IH"(3) [OF k nf nc a0 g0 refl a1 v1 g1] c show ?thesis by simp
      qed
    qed
  qed
qed

lemmas example_simps =
  exampleEnv_def literalFive_def calleeRef_def applyWithFive_def firstArgument_def
  trackerOfCallee_def calleeConstantTracker_def callerConstantTracker_def
  getOperand_def getArgument_def getParam_def getDef_def getDefInCaller_def
  getMember_def lookupLink_def mkIntConst_def invalidIntConst_def

lemma getIntConst_firstArgument:
  "getIntConst exampleEnv trackerOfCallee firstArgument 0
     = Some (mkIntConst 5 True, trackerOfCallee)"
  by (simp add: getIntConst.simps getDefFrom.simps getStoredValue.simps example_simps)

lemma cacheValid_initial:
  "cacheValid (callerConstantTracker f)" "cacheValid (calleeConstantTracker f caller site)"
  by (simp_all add: cacheValid_def callerConstantTracker_def calleeConstantTracker_def)

lemma cacheValid_setLinks [simp]: "cacheValid (setLinks t l) = cacheValid t"
  by (simp add: cacheValid_def setLinks_def)

lemma cacheValid_setMemoryContent [simp]: "cacheValid (setMemoryContent t m) = cacheValid t"
  by (simp add: cacheValid_def setMemoryContent_def)

lemma cacheValid_trackInst: "trackInst env t inst = Some t' \<Longrightarrow> cacheValid t' = cacheValid t"
  by (cases "getKind inst")
     (auto simp: trackInst_def split: option.splits if_splits)

text \<open>
  C10. The cache of a tracker is valid when every constant in it that is marked
  as coming from the caller is valid; a new tracker has an empty cache, and
  \<^verbatim>\<open>trackInst\<close> and \<^verbatim>\<open>beginBlock\<close> leave the cache alone. On a valid cache every
  constant that \<^verbatim>\<open>getIntConst\<close> or \<^verbatim>\<open>getBuiltinConst\<close> returns is valid if it is
  from the caller, and the cache stays valid. So the constant that
  \<^verbatim>\<open>getTakenBlock\<close> inspects for a \<^verbatim>\<open>cond_br\<close> or a \<^verbatim>\<open>switch_value\<close> is valid
  whenever its from-caller flag, the only flag tested before the value is read,
  is set.
\<close>

theorem fromCaller_implies_valid:
  assumes "cacheValid t"
  shows "(getIntConst env t val depth = Some (c, t')
            \<longrightarrow> (isFromCaller c \<longrightarrow> isValid c) \<and> cacheValid t')
       \<and> (getBuiltinConst env t BI depth = Some (c, t')
            \<longrightarrow> (isFromCaller c \<longrightarrow> isValid c) \<and> cacheValid t')
       \<and> (getTakenBlock env term t = Some (r, t')
            \<and> (getKind term = CondBranchInst trueBB falseBB
               \<or> getKind term = SwitchValueInst dests dflt)
            \<longrightarrow> (\<exists>v k. getOperand term 0 = Some v \<and> getIntConst env t v 0 = Some (k, t')
                    \<and> (isFromCaller k \<longrightarrow> isValid k)))"
proof -
  have int: "(isFromCaller c \<longrightarrow> isValid c) \<and> cacheValid t'"
    if "getIntConst env t val depth = Some (c, t')"
    using constants_valid(1) [OF assms that]
    by (simp add: fromCallerIsValid_def split: if_splits)
  have builtin: "(isFromCaller c \<longrightarrow> isValid c) \<and> cacheValid t'"
    if "getBuiltinConst env t BI depth = Some (c, t')"
    using constants_valid(2) [OF assms that]
    by (simp add: fromCallerIsValid_def split: if_splits)
  have taken: "\<exists>v k. getOperand term 0 = Some v \<and> getIntConst env t v 0 = Some (k, t')
      \<and> (isFromCaller k \<longrightarrow> isValid k)"
    if a: "getTakenBlock env term t = Some (r, t')
      \<and> (getKind term = CondBranchInst trueBB falseBB \<or> getKind term = SwitchValueInst dests dflt)"
  proof -
    from a obtain v k where v: "getOperand term 0 = Some v"
      and k: "getIntConst env t v 0 = Some (k, t')"
      by (auto simp: getTakenBlock_def split: option.splits if_splits)
    from constants_valid(1) [OF assms k] have "isFromCaller k \<longrightarrow> isValid k"
      by (simp add: fromCallerIsValid_def split: if_splits)
    with v k show ?thesis by blast
  qed
  from int builtin taken show ?thesis by blast
qed

theorem fromCaller_implies_valid_witness:
  "cacheValid trackerOfCallee
   \<and> (\<exists>c t'. getIntConst exampleEnv trackerOfCallee (InstValue compareWithFive) 0 = Some (c, t')
          \<and> isFromCaller c \<and> isValid c \<and> cacheValid t')
   \<and> (\<exists>c t'. getBuiltinConst exampleEnv trackerOfCallee compareWithFive 1 = Some (c, t')
          \<and> isFromCaller c \<and> isValid c \<and> cacheValid t')"
proof -
  have v: "cacheValid trackerOfCallee"
    by (simp add: trackerOfCallee_def cacheValid_initial)
  have b: "getBuiltinConst exampleEnv trackerOfCallee compareWithFive 1
             = Some (mkIntConst 1 True, trackerOfCallee)"
    by (simp add: getBuiltinConst.simps getIntConst.simps
        getDefFrom.simps getStoredValue.simps
        compareWithFive_def foldBinary_def example_simps)
  have d: "getDef exampleEnv trackerOfCallee (InstValue compareWithFive)
             = Some (Some compareWithFive)"
    by (simp add: getDefFrom.simps getStoredValue.simps compareWithFive_def example_simps)
  have k: "getKind compareWithFive = BuiltinInst (BinaryPredicate 0)"
    by (simp add: compareWithFive_def)
  have e: "constCache trackerOfCallee compareWithFive = None"
    by (simp add: trackerOfCallee_def calleeConstantTracker_def)
  have i: "getIntConst exampleEnv trackerOfCallee (InstValue compareWithFive) 0
             = Some (mkIntConst 1 True,
                  setConstCache trackerOfCallee
                    ((constCache trackerOfCallee)(compareWithFive \<mapsto> mkIntConst 1 True)))"
    using b d k e
    by (simp add: getIntConst.simps [of _ _ "InstValue compareWithFive"])
  from fromCaller_implies_valid [OF v] i
  have "cacheValid (setConstCache trackerOfCallee
                    ((constCache trackerOfCallee)(compareWithFive \<mapsto> mkIntConst 1 True)))"
    by blast
  with v b i show ?thesis by (simp add: mkIntConst_def)
qed

section \<open>The taken block of a terminator\<close>

lemma switchValueCases_char:
  "switchValueCases v cs dflt =
     (case find (\<lambda>c. literalOf (fst c) = Some v) (takeWhile (\<lambda>c. literalOf (fst c) \<noteq> None) cs) of
        Some c \<Rightarrow> Some (snd c)
      | None \<Rightarrow> if list_all (\<lambda>c. literalOf (fst c) \<noteq> None) cs then dflt else None)"
  by (induction cs) (auto split: option.splits)

lemma getDefInCaller_Some:
  "getDefInCaller env t v = Some (Some def) \<Longrightarrow> getFunction def \<noteq> F t"
  by (auto simp: getDefInCaller_def split: option.splits if_splits)

text \<open>
  C8 (as amended). Let \<open>v\<close> be the operand that the terminator tests. When the
  constant tracker returns the constant \<open>c\<close> for \<open>v\<close>, \<^verbatim>\<open>getTakenBlock\<close> returns:
  for a \<^verbatim>\<open>cond_br\<close> the true or the false block as \<open>c\<close> selects, and for a
  \<^verbatim>\<open>switch_value\<close> the successor of the first case that equals \<open>c\<close> among the
  cases read in order up to the first case value that is not an integer literal,
  or, if none of these equals \<open>c\<close>, the default when every case value is an
  integer literal and no successor otherwise; in both cases only if the
  from-caller flag of \<open>c\<close> is set, and no successor if it is not. When the
  tracker does not return, neither does \<^verbatim>\<open>getTakenBlock\<close>. For every terminator,
  a successor is returned only on information from the caller: a constant whose
  from-caller flag is set, or a definition found in the caller.
\<close>

theorem getTakenBlock_caller_constant:
  assumes "getOperand term 0 = Some v"
  shows "(getIntConst env t v 0 = Some (c, t') \<and> getKind term = CondBranchInst trueBB falseBB
            \<longrightarrow> getTakenBlock env term t
                  = Some (if isFromCaller c
                          then Some (if valueIC c \<noteq> 0 then trueBB else falseBB) else None, t'))
       \<and> (getIntConst env t v 0 = Some (c, t') \<and> getKind term = SwitchValueInst dests dflt
            \<longrightarrow> getTakenBlock env term t
                  = Some (if isFromCaller c then
                            (case find (\<lambda>sc. literalOf (fst sc) = Some (valueIC c))
                                    (takeWhile (\<lambda>sc. literalOf (fst sc) \<noteq> None)
                                       (getCases term dests)) of
                               Some sc \<Rightarrow> Some (snd sc)
                             | None \<Rightarrow>
                                 if list_all (\<lambda>sc. literalOf (fst sc) \<noteq> None) (getCases term dests)
                                 then dflt else None)
                          else None, t'))
       \<and> (getIntConst env t v 0 = None
            \<and> (getKind term = CondBranchInst trueBB falseBB
               \<or> getKind term = SwitchValueInst dests dflt)
            \<longrightarrow> getTakenBlock env term t = None)
       \<and> (getTakenBlock env term t = Some (Some taken, t2)
            \<longrightarrow> (\<exists>k. getIntConst env t v 0 = Some (k, t2) \<and> isFromCaller k)
                \<or> (\<exists>def. getDefInCaller env t v = Some (Some def) \<and> getFunction def \<noteq> F t))"
proof (intro conjI impI)
  assume "getIntConst env t v 0 = Some (c, t') \<and> getKind term = CondBranchInst trueBB falseBB"
  with assms show "getTakenBlock env term t
      = Some (if isFromCaller c then Some (if valueIC c \<noteq> 0 then trueBB else falseBB) else None, t')"
    by (simp add: getTakenBlock_def)
next
  assume "getIntConst env t v 0 = Some (c, t') \<and> getKind term = SwitchValueInst dests dflt"
  with assms show "getTakenBlock env term t
      = Some (if isFromCaller c then
                (case find (\<lambda>sc. literalOf (fst sc) = Some (valueIC c))
                        (takeWhile (\<lambda>sc. literalOf (fst sc) \<noteq> None) (getCases term dests)) of
                   Some sc \<Rightarrow> Some (snd sc)
                 | None \<Rightarrow>
                     if list_all (\<lambda>sc. literalOf (fst sc) \<noteq> None) (getCases term dests)
                     then dflt else None)
              else None, t')"
    by (simp add: getTakenBlock_def switchValueCases_char)
next
  assume "getIntConst env t v 0 = None
      \<and> (getKind term = CondBranchInst trueBB falseBB \<or> getKind term = SwitchValueInst dests dflt)"
  with assms show "getTakenBlock env term t = None"
    by (auto simp: getTakenBlock_def)
next
  assume "getTakenBlock env term t = Some (Some taken, t2)"
  with assms show "(\<exists>k. getIntConst env t v 0 = Some (k, t2) \<and> isFromCaller k)
      \<or> (\<exists>def. getDefInCaller env t v = Some (Some def) \<and> getFunction def \<noteq> F t)"
    by (cases "getKind term")
       (auto simp: getTakenBlock_def dest: getDefInCaller_Some
             split: option.splits if_splits ValueKind.splits)
qed

theorem getTakenBlock_caller_constant_witness:
  "getOperand literalSwitch 0 = Some firstArgument
   \<and> getIntConst exampleEnv trackerOfCallee firstArgument 0
       = Some (mkIntConst 5 True, trackerOfCallee)
   \<and> getKind literalSwitch = SwitchValueInst [10, 20] (Some 30)
   \<and> map (\<lambda>sc. (literalOf (fst sc), snd sc)) (getCases literalSwitch [10, 20])
       = [(Some 1, 10), (Some 5, 20)]
   \<and> getTakenBlock exampleEnv literalSwitch trackerOfCallee = Some (Some 20, trackerOfCallee)"
proof -
  have op: "getOperand literalSwitch 0 = Some firstArgument"
    by (simp add: literalSwitch_def getOperand_def)
  have k: "getKind literalSwitch = SwitchValueInst [10, 20] (Some 30)"
    by (simp add: literalSwitch_def)
  have cs: "map (\<lambda>sc. (literalOf (fst sc), snd sc)) (getCases literalSwitch [10, 20])
       = [(Some 1, 10), (Some 5, 20)]"
    by (simp add: literalSwitch_def getCases_def literalOf_def)
  have cs': "getCases literalSwitch [10, 20]
       = [(InstValue (SILInstruction 1 1 (IntegerLiteralInst 1) []), 10),
          (InstValue (SILInstruction 2 1 (IntegerLiteralInst 5) []), 20)]"
    by (simp add: literalSwitch_def getCases_def)
  from getTakenBlock_caller_constant [OF op, of exampleEnv trackerOfCallee "mkIntConst 5 True"
      trackerOfCallee] getIntConst_firstArgument k
  have "getTakenBlock exampleEnv literalSwitch trackerOfCallee = Some (Some 20, trackerOfCallee)"
    by (simp add: cs' literalOf_def mkIntConst_def)
  with op k cs getIntConst_firstArgument show ?thesis by simp
qed

text \<open>
  The claim as first stated lets the first case whose literal equals the constant
  win wherever it stands. In \<open>mixedSwitch\<close> the constant from the
  caller is 5 and the second case is the literal 5, but the first case value is
  not a literal, and no successor is returned.
\<close>

theorem getTakenBlock_first_literal_match_counterexample:
  "getOperand mixedSwitch 0 = Some firstArgument
   \<and> getIntConst exampleEnv trackerOfCallee firstArgument 0 = Some (mkIntConst 5 True, trackerOfCallee)
   \<and> map (\<lambda>sc. (literalOf (fst sc), snd sc)) (getCases mixedSwitch [10, 20]) = [(None, 10), (Some 5, 20)]
   \<and> getTakenBlock exampleEnv mixedSwitch trackerOfCallee = Some (None, trackerOfCallee)"
  using getIntConst_firstArgument
  by (simp add: getTakenBlock_def mixedSwitch_def getOperand_def getCases_def literalOf_def
      firstArgument_def mkIntConst_def)

section \<open>The walk over the callee\<close>

lemmas walk_simps =
  calleeWalk_def walkCallee.simps getNext_def newDominanceOrder_def visitCalleeBlock_def
  visitCalleeInst_def beginBlock_def trackInst_def getTerminator_def getTakenBlock_def
  pushCalleeChildren_def pushChildrenIf_def pushChildren_def notDeadAfterInlining_def
  addTerminatorBenefit_def initialBenefit_def testCost_def isApplyInst_def
  setMemoryContent_def setLinks_def

lemmas block_simps =
  testEnv_def joinTree_def forkTree_def entryBlock_def trueBlock_def joinBlock_def
  falseBlock_def builtinInst_def otherInst_def

lemma getIntConst_firstArgument_test:
  "getIntConst (testEnv tree) (setMemoryContent trackerOfCallee (\<lambda>_. None)) firstArgument 0
     = Some (mkIntConst 5 True, setMemoryContent trackerOfCallee (\<lambda>_. None))"
  by (simp add: getIntConst.simps getDefFrom.simps getStoredValue.simps testEnv_def
      setMemoryContent_def example_simps)



lemma calleeWalk_fork:
  "calleeWalk (testEnv forkTree) 1 applyWithFive 0 (callerConstantTracker 0)
     = Some (\<lparr>visited = [forkTree, DomNode trueBlock []], worklist = []\<rparr>,
             \<lparr>constTracker = setMemoryContent trackerOfCallee (\<lambda>_. None), CalleeCost = 1,
              Benefit = 82, testThreshold = 10\<rparr>)"
  using getIntConst_firstArgument_test [of forkTree]
  by (simp add: walk_simps block_simps exampleEnv_def RemovedCallBenefit_def
      ConstTerminatorBenefit_def LoopBenefitFactor_def trackerOfCallee_def
      calleeConstantTracker_def callerConstantTracker_def getOperand_def firstArgument_def
      mkIntConst_def)






















section \<open>Every candidate is eligible\<close>

lemma eligible_referenced:
  "getEligibleFunction env M site = Some Callee \<Longrightarrow> getReferencedFunction site = Some Callee"
  by (auto simp: getEligibleFunction_def split: option.splits if_splits)

lemma visitColdInsts_eligible:
  "\<forall>s\<in>set A. getEligibleFunction env M s \<noteq> None
     \<Longrightarrow> \<forall>s\<in>set (visitColdInsts env M A body). getEligibleFunction env M s \<noteq> None"
proof (induction body arbitrary: A)
  case Nil
  then show ?case by simp
next
  case (Cons I rest)
  show ?case
  proof (cases "isApplyInst I \<and> (\<exists>Callee. getEligibleFunction env M I = Some Callee
                                        \<and> isProfitableInColdBlock env M I Callee)")
    case True
    then have "\<forall>s\<in>set (A @ [I]). getEligibleFunction env M s \<noteq> None"
      using Cons.prems by auto
    from Cons.IH [OF this] True show ?thesis by auto
  next
    case False
    then have "visitColdInsts env M A (I # rest) = visitColdInsts env M A rest"
      by (auto split: option.splits)
    with Cons.IH [OF Cons.prems] show ?thesis by simp
  qed
qed

lemma visitColdBlocksLoop_eligible:
  "\<forall>s\<in>set A. getEligibleFunction env M s \<noteq> None
     \<Longrightarrow> \<forall>s\<in>set (visitColdBlocksLoop env M d A). getEligibleFunction env M s \<noteq> None"
proof (induction env M d A rule: visitColdBlocksLoop.induct)
  case (1 env M domOrder A)
  show ?case
  proof (cases "getNext domOrder")
    case None
    with "1.prems" show ?thesis
      by (simp add: visitColdBlocksLoop.simps [of env M domOrder A])
  next
    case (Some x)
    obtain node d1 where x: "x = (node, d1)" by (cases x)
    have "\<forall>s\<in>set (visitColdInsts env M A (insts (getBlock node))).
            getEligibleFunction env M s \<noteq> None"
      using "1.prems" by (rule visitColdInsts_eligible)
    from "1.IH" [OF Some x [symmetric] this] Some x show ?thesis
      by (simp add: visitColdBlocksLoop.simps [of env M domOrder A])
  qed
qed

lemma visitColdBlocks_eligible:
  "\<forall>s\<in>set A. getEligibleFunction env M s \<noteq> None
     \<Longrightarrow> \<forall>s\<in>set (visitColdBlocks env M A root). getEligibleFunction env M s \<noteq> None"
  unfolding visitColdBlocks_def by (rule visitColdBlocksLoop_eligible)

lemma visitCallerInst_eligible:
  "\<forall>s\<in>set (InitialCandidates c). getEligibleFunction env M s \<noteq> None
     \<Longrightarrow> visitCallerInst env M ld c I = Some c'
     \<Longrightarrow> \<forall>s\<in>set (InitialCandidates c'). getEligibleFunction env M s \<noteq> None"
  by (auto simp: visitCallerInst_def split: option.splits if_splits)

lemma visitCallerInsts_eligible:
  "\<forall>s\<in>set (InitialCandidates c). getEligibleFunction env M s \<noteq> None
     \<Longrightarrow> visitCallerInsts env M ld c body = Some c'
     \<Longrightarrow> \<forall>s\<in>set (InitialCandidates c'). getEligibleFunction env M s \<noteq> None"
proof (induction body arbitrary: c)
  case Nil
  then show ?case by simp
next
  case (Cons I rest)
  from Cons.prems(2) obtain c1 where s: "visitCallerInst env M ld c I = Some c1"
    and r: "visitCallerInsts env M ld c1 rest = Some c'"
    by (auto split: option.splits)
  from visitCallerInst_eligible [OF Cons.prems(1) s] r show ?case
    by (rule Cons.IH)
qed

lemma pushCallerChildren_eligible:
  "\<forall>s\<in>set A. getEligibleFunction env M s \<noteq> None
     \<Longrightarrow> \<forall>s\<in>set (snd (pushCallerChildren env M block kids (d, A))).
           getEligibleFunction env M s \<noteq> None"
proof (induction kids arbitrary: d A)
  case Nil
  then show ?case by simp
next
  case (Cons child rest)
  show ?case
  proof (cases "isSlowPath env block (getBlock child)")
    case True
    have "\<forall>s\<in>set (visitColdBlocks env M A child). getEligibleFunction env M s \<noteq> None"
      using Cons.prems by (rule visitColdBlocks_eligible)
    from Cons.IH [OF this] True show ?thesis by simp
  next
    case False
    from Cons.IH [OF Cons.prems] False show ?thesis by simp
  qed
qed

lemma collectLoop_eligible:
  "\<forall>s\<in>set (InitialCandidates c). getEligibleFunction env M s \<noteq> None
     \<Longrightarrow> collectLoop env M Caller d c = Some c'
     \<Longrightarrow> \<forall>s\<in>set (InitialCandidates c'). getEligibleFunction env M s \<noteq> None"
proof (induction env M Caller d c rule: collectLoop.induct)
  case (1 env M Caller domOrder c)
  note eq = collectLoop.simps [of env M Caller domOrder c]
  show ?case
  proof (cases "getNext domOrder")
    case None
    with "1.prems" show ?thesis by (simp add: eq)
  next
    case (Some x)
    obtain node d1 where x: "x = (node, d1)" by (cases x)
    let ?c0 = "c\<lparr>callerConstTracker := beginBlock (callerConstTracker c)\<rparr>"
    from "1.prems"(2) Some x obtain c1 where
      v: "visitCallerInsts env M (LA env Caller (getBlock node)) ?c0 (insts (getBlock node)) = Some c1"
      and r: "collectLoop env M Caller
                 (fst (pushCallerChildren env M (getBlock node) (children node)
                         (d1, InitialCandidates c1)))
                 (c1\<lparr>InitialCandidates :=
                       snd (pushCallerChildren env M (getBlock node) (children node)
                              (d1, InitialCandidates c1))\<rparr>) = Some c'"
      by (auto simp: eq split: option.splits)
    have "\<forall>s\<in>set (InitialCandidates ?c0). getEligibleFunction env M s \<noteq> None"
      using "1.prems"(1) by simp
    from visitCallerInsts_eligible [OF this v]
    have "\<forall>s\<in>set (snd (pushCallerChildren env M (getBlock node) (children node)
                              (d1, InitialCandidates c1))). getEligibleFunction env M s \<noteq> None"
      by (rule pushCallerChildren_eligible)
    then have "\<forall>s\<in>set (InitialCandidates (c1\<lparr>InitialCandidates :=
                       snd (pushCallerChildren env M (getBlock node) (children node)
                              (d1, InitialCandidates c1))\<rparr>)). getEligibleFunction env M s \<noteq> None"
      by simp
    from "1.IH" [OF Some x [symmetric] v this r] show ?thesis .
  qed
qed

lemma collectInitialCandidates_eligible:
  assumes "collectInitialCandidates env M Caller = Some candidates"
  shows "\<forall>s\<in>set candidates. getEligibleFunction env M s \<noteq> None"
proof -
  from assms obtain c where
    l: "collectLoop env M Caller (newDominanceOrder (DA env Caller))
          \<lparr>callerConstTracker = callerConstantTracker Caller,
           NumCallerBlocks = of_nat (length (blocks (M Caller))),
           InitialCandidates = []\<rparr> = Some c"
    and c: "candidates = InitialCandidates c"
    by (auto simp: collectInitialCandidates_def split: option.splits if_splits)
  have "\<forall>s\<in>set (InitialCandidates \<lparr>callerConstTracker = callerConstantTracker Caller,
           NumCallerBlocks = of_nat (length (blocks (M Caller))),
           InitialCandidates = []\<rparr>). getEligibleFunction env M s \<noteq> None"
    by simp
  from collectLoop_eligible [OF this l] c show ?thesis by simp
qed

section \<open>The final list\<close>

lemma countCallees_count:
  "\<forall>s\<in>set candidates. getReferencedFunction s \<noteq> None
     \<Longrightarrow> countCallees env candidates cnt
          = Some (\<lambda>f. cnt f + of_nat (length (filter (\<lambda>s. getReferencedFunction s = f) candidates)))"
proof (induction candidates arbitrary: cnt)
  case Nil
  then show ?case by simp
next
  case (Cons site rest)
  then obtain Callee where r: "getReferencedFunction site = Some Callee" by auto
  have "countCallees env (site # rest) cnt
          = countCallees env rest (cnt(Some Callee := cnt (Some Callee) + 1))"
    using r by (simp add: Let_def)
  also have "\<dots> = Some (\<lambda>f. (cnt(Some Callee := cnt (Some Callee) + 1)) f
        + of_nat (length (filter (\<lambda>s. getReferencedFunction s = f) rest)))"
    using Cons.prems by (intro Cons.IH) simp
  also have "(\<lambda>f. (cnt(Some Callee := cnt (Some Callee) + 1)) f
        + of_nat (length (filter (\<lambda>s. getReferencedFunction s = f) rest)))
     = (\<lambda>f. cnt f + of_nat (length (filter (\<lambda>s. getReferencedFunction s = f) (site # rest))))"
    using r by (auto simp: fun_eq_iff)
  finally show ?case .
qed

lemma copyCandidates_filter:
  "\<forall>s\<in>set candidates. getReferencedFunction s \<noteq> None
     \<Longrightarrow> copyCandidates env cnt candidates A
          = Some (A @ filter (\<lambda>s. case getReferencedFunction s of
                                     Some f \<Rightarrow> cnt (Some f) \<le> CallsToCalleeThreshold
                                   | None \<Rightarrow> False) candidates)"
  by (induction candidates arbitrary: A) (auto simp: Let_def)

lemma count_le_threshold:
  assumes "n < 2 ^ 32"
  shows "(of_nat n :: unsigned) \<le> CallsToCalleeThreshold \<longleftrightarrow> n \<le> 1024"
proof -
  have "unat (of_nat n :: unsigned) = n"
    using assms by (simp add: unat_of_nat)
  then show ?thesis
    by (simp add: CallsToCalleeThreshold_def word_le_nat_alt)
qed

lemma collectAppliesToInline_filter:
  assumes c: "collectInitialCandidates env M Caller = Some candidates"
    and len: "length candidates < 2 ^ 32"
  shows "collectAppliesToInline env M Caller A
           = Some (A @ filter (\<lambda>s. case getReferencedFunction s of
                 Some f \<Rightarrow> length (filter (\<lambda>s. getReferencedFunction s = Some f) candidates) \<le> 1024
               | None \<Rightarrow> False) candidates)"
proof -
  have ref: "\<forall>s\<in>set candidates. getReferencedFunction s \<noteq> None"
    using collectInitialCandidates_eligible [OF c] eligible_referenced by fastforce
  have le: "length (filter (\<lambda>s. getReferencedFunction s = Some f) candidates) < 2 ^ 32" for f
    using len length_filter_le [of "\<lambda>s. getReferencedFunction s = Some f" candidates]
    by (rule_tac le_less_trans)
  have "collectAppliesToInline env M Caller A
          = Some (A @ filter (\<lambda>s. case getReferencedFunction s of
                Some f \<Rightarrow> (of_nat (length (filter (\<lambda>s. getReferencedFunction s = Some f) candidates)) :: unsigned)
                            \<le> CallsToCalleeThreshold
              | None \<Rightarrow> False) candidates)"
    using c countCallees_count [OF ref, of env "\<lambda>_. 0"] copyCandidates_filter [OF ref, of env]
    by (simp add: collectAppliesToInline_def)
  also have "(\<lambda>s. case getReferencedFunction s of
                Some f \<Rightarrow> (of_nat (length (filter (\<lambda>s. getReferencedFunction s = Some f) candidates)) :: unsigned)
                            \<le> CallsToCalleeThreshold
              | None \<Rightarrow> False)
       = (\<lambda>s. case getReferencedFunction s of
                 Some f \<Rightarrow> length (filter (\<lambda>s. getReferencedFunction s = Some f) candidates) \<le> 1024
               | None \<Rightarrow> False)"
    using count_le_threshold [OF le] by (auto simp: fun_eq_iff split: option.splits)
  finally show ?thesis .
qed

section \<open>The multiplicity guard\<close>

lemma repeatedSite_eligible:
  "getEligibleFunction (repeatedEnv n) (repeatedModule n) (repeatedSite i) = Some 1"
  by (simp add: getEligibleFunction_def getReferencedFunction_def hasSubstitutions_def
      skippedByAttributes_def hasSemanticsAttrs_def calleeIsSelfRecursive_def isFullApplySite_def
      repeatedSite_def repeatedModule_def repeatedEnv_def exampleEnv_def joinCallee_def
      emptyFunction_def entryBlock_def trueBlock_def joinBlock_def builtinInst_def otherInst_def)

lemma repeatedSite_profitable:
  "isProfitableToInline (repeatedEnv n) (repeatedModule n) (repeatedSite i) ld t k = Some (True, k)"
  by (simp add: isProfitableToInline_def getReferencedFunction_def repeatedSite_def
      repeatedModule_def)

lemma visitCallerInst_repeated:
  "visitCallerInst (repeatedEnv n) (repeatedModule n) ld c (repeatedSite i)
     = Some (c\<lparr>InitialCandidates := InitialCandidates c @ [repeatedSite i]\<rparr>)"
proof -
  have t: "trackInst (repeatedEnv n) (callerConstTracker c) (repeatedSite i)
             = Some (callerConstTracker c)"
    by (simp add: trackInst_def repeatedSite_def)
  have k: "isFullApplySite (repeatedSite i)"
    by (simp add: isFullApplySite_def repeatedSite_def)
  show ?thesis
    by (simp add: visitCallerInst_def t k repeatedSite_eligible repeatedSite_profitable)
qed

lemma visitCallerInsts_repeated:
  "visitCallerInsts (repeatedEnv n) (repeatedModule n) ld c (map repeatedSite xs)
     = Some (c\<lparr>InitialCandidates := InitialCandidates c @ map repeatedSite xs\<rparr>)"
  by (induction xs arbitrary: c) (simp_all add: visitCallerInst_repeated)

lemma collectInitialCandidates_repeated:
  "collectInitialCandidates (repeatedEnv n) (repeatedModule n) 0 = Some (map repeatedSite [0..<n])"
proof -
  have da: "DA (repeatedEnv n) 0 = DomNode (repeatedBlock n) []"
    by (simp add: repeatedEnv_def)
  have b: "blocks (repeatedModule n 0) = [repeatedBlock n]"
    by (simp add: repeatedModule_def emptyFunction_def)
  have i: "insts (repeatedBlock n) = map repeatedSite [0..<n]"
    by (simp add: repeatedBlock_def)
  show ?thesis
    by (simp add: collectInitialCandidates_def collectLoop.simps getNext_def newDominanceOrder_def
        da b i visitCallerInsts_repeated)
qed

lemma repeated_count:
  "length (filter (\<lambda>s. getReferencedFunction s = Some 1) (map repeatedSite xs)) = length xs"
  by (induction xs) (simp_all add: getReferencedFunction_def repeatedSite_def)

text \<open>
  C4. The final list holds, in the order of discovery, the initial candidates
  whose callee occurs at most 1024 times among the initial candidates. So when a
  callee occurs more than 1024 times none of its call sites is in the final
  list, and when it occurs 1024 times or fewer all of them are. The count is an
  \<^verbatim>\<open>unsigned\<close>; the candidates are assumed to be fewer than \<open>2 ^ 32\<close>.
\<close>

theorem multiplicity_guard:
  assumes "collectInitialCandidates env M Caller = Some candidates"
    and "length candidates < 2 ^ 32"
  shows "\<exists>final. collectAppliesToInline env M Caller [] = Some final
           \<and> (\<forall>Callee.
                 (1024 < length (filter (\<lambda>s. getReferencedFunction s = Some Callee) candidates)
                    \<longrightarrow> filter (\<lambda>s. getReferencedFunction s = Some Callee) final = [])
               \<and> (length (filter (\<lambda>s. getReferencedFunction s = Some Callee) candidates) \<le> 1024
                    \<longrightarrow> filter (\<lambda>s. getReferencedFunction s = Some Callee) final
                          = filter (\<lambda>s. getReferencedFunction s = Some Callee) candidates))"
proof -
  let ?keep = "\<lambda>s. case getReferencedFunction s of
                 Some f \<Rightarrow> length (filter (\<lambda>s. getReferencedFunction s = Some f) candidates) \<le> 1024
               | None \<Rightarrow> False"
  have f: "collectAppliesToInline env M Caller [] = Some (filter ?keep candidates)"
    using collectAppliesToInline_filter [OF assms, of "[]"] by simp
  have "filter (\<lambda>s. getReferencedFunction s = Some Callee) (filter ?keep candidates) = []"
    if "1024 < length (filter (\<lambda>s. getReferencedFunction s = Some Callee) candidates)" for Callee
    using that by (auto simp: filter_empty_conv)
  moreover have "filter (\<lambda>s. getReferencedFunction s = Some Callee) (filter ?keep candidates)
      = filter (\<lambda>s. getReferencedFunction s = Some Callee) candidates"
    if "length (filter (\<lambda>s. getReferencedFunction s = Some Callee) candidates) \<le> 1024" for Callee
    using that by (auto intro: filter_cong)
  ultimately show ?thesis using f by blast
qed

theorem multiplicity_guard_witness:
  "collectInitialCandidates (repeatedEnv 1025) (repeatedModule 1025) 0
     = Some (map repeatedSite [0..<1025])
   \<and> length (map repeatedSite [0..<1025]) < (2::nat) ^ 32
   \<and> length (filter (\<lambda>s. getReferencedFunction s = Some 1) (map repeatedSite [0..<1025])) = 1025
   \<and> (\<exists>final. collectAppliesToInline (repeatedEnv 1025) (repeatedModule 1025) 0 [] = Some final
          \<and> filter (\<lambda>s. getReferencedFunction s = Some 1) final = [])
   \<and> length (filter (\<lambda>s. getReferencedFunction s = Some 1) (map repeatedSite [0..<1024])) = 1024
   \<and> (\<exists>final. collectAppliesToInline (repeatedEnv 1024) (repeatedModule 1024) 0 [] = Some final
          \<and> filter (\<lambda>s. getReferencedFunction s = Some 1) final = map repeatedSite [0..<1024])"
proof -
  have l5: "length (map repeatedSite [0..<1025]) < (2::nat) ^ 32" by simp
  have l4: "length (map repeatedSite [0..<1024]) < (2::nat) ^ 32" by simp
  have c5: "length (filter (\<lambda>s. getReferencedFunction s = Some 1) (map repeatedSite [0..<1025])) = 1025"
    using repeated_count [of "[0..<1025]"] by simp
  have c4: "length (filter (\<lambda>s. getReferencedFunction s = Some 1) (map repeatedSite [0..<1024])) = 1024"
    using repeated_count [of "[0..<1024]"] by simp
  have all: "filter (\<lambda>s. getReferencedFunction s = Some 1) (map repeatedSite [0..<1024])
               = map repeatedSite [0..<1024]"
    by (simp add: filter_id_conv getReferencedFunction_def repeatedSite_def)
  from multiplicity_guard [OF collectInitialCandidates_repeated [of 1025] l5] c5
  have g5: "\<exists>final. collectAppliesToInline (repeatedEnv 1025) (repeatedModule 1025) 0 [] = Some final
          \<and> filter (\<lambda>s. getReferencedFunction s = Some 1) final = []"
    by (metis less_add_one numeral_plus_one semiring_norm(5) lessI)
  from multiplicity_guard [OF collectInitialCandidates_repeated [of 1024] l4] c4 all
  have g4: "\<exists>final. collectAppliesToInline (repeatedEnv 1024) (repeatedModule 1024) 0 [] = Some final
          \<and> filter (\<lambda>s. getReferencedFunction s = Some 1) final = map repeatedSite [0..<1024]"
    by (metis order_refl)
  from collectInitialCandidates_repeated [of 1025] l5 c5 g5 c4 g4 show ?thesis by blast
qed

section \<open>The collector on the example caller\<close>

lemma getIntConst_firstArgument_caller:
  "getIntConst (callerEnv phase ndebug service) (setMemoryContent trackerOfCallee (\<lambda>_. None))
       firstArgument 0
     = Some (mkIntConst 5 True, setMemoryContent trackerOfCallee (\<lambda>_. None))"
  by (simp add: getIntConst.simps getDefFrom.simps getStoredValue.simps callerEnv_def
      setMemoryContent_def example_simps)

lemma calleeWalk_caller:
  "calleeWalk (callerEnv phase ndebug service) 1 applyWithFive 0 (callerConstantTracker 0)
     = Some (\<lparr>visited = [joinTree, DomNode trueBlock [], DomNode joinBlock []], worklist = []\<rparr>,
             \<lparr>constTracker = setMemoryContent trackerOfCallee (\<lambda>_. None), CalleeCost = 2,
              Benefit = 82, testThreshold = 10\<rparr>)"
  using getIntConst_firstArgument_caller [of phase ndebug service]
  by (simp add: walk_simps block_simps callerEnv_def exampleEnv_def RemovedCallBenefit_def
      ConstTerminatorBenefit_def LoopBenefitFactor_def trackerOfCallee_def
      calleeConstantTracker_def callerConstantTracker_def getOperand_def firstArgument_def
      mkIntConst_def)

lemma isProfitableToInline_caller:
  assumes "getInlineStrategy callee = InlineDefault"
    and "blocks callee = [entryBlock, trueBlock, joinBlock]"
  shows "isProfitableToInline (callerEnv phase ndebug service) (callerModule callee) applyWithFive 0
           (callerConstantTracker 0) 1
     = Some (True, 4)"
  using calleeWalk_caller [of phase ndebug service] assms
  by (simp add: isProfitableToInline_def getReferencedFunction_def computeThreshold_def
      callerModule_def emptyFunction_def applyWithFive_def)

lemma collectInitialCandidates_caller:
  assumes "getEligibleFunction (callerEnv phase ndebug service) (callerModule callee) applyWithFive
             = Some 1"
    and "getInlineStrategy callee = InlineDefault"
    and "blocks callee = [entryBlock, trueBlock, joinBlock]"
  shows "collectInitialCandidates (callerEnv phase ndebug service) (callerModule callee) 0
           = Some [applyWithFive]"
proof -
  let ?env = "callerEnv phase ndebug service"
  have t: "beginBlock (callerConstantTracker 0) = callerConstantTracker 0"
    by (simp add: beginBlock_def setMemoryContent_def callerConstantTracker_def)
  have da: "DA ?env 0 = DomNode callerBlock []" "\<And>blk. LA ?env 0 blk = 0"
    by (simp_all add: callerEnv_def exampleEnv_def)
  have b: "blocks (callerModule callee 0) = [callerBlock]"
    by (simp add: callerModule_def emptyFunction_def)
  have tr: "trackInst ?env (callerConstantTracker 0) calleeRef = Some (callerConstantTracker 0)"
    "trackInst ?env (callerConstantTracker 0) literalFive = Some (callerConstantTracker 0)"
    "trackInst ?env (callerConstantTracker 0) applyWithFive = Some (callerConstantTracker 0)"
    "trackInst ?env (callerConstantTracker 0) (otherInst 103 0) = Some (callerConstantTracker 0)"
    by (simp_all add: trackInst_def calleeRef_def literalFive_def applyWithFive_def otherInst_def)
  have k: "\<not> isFullApplySite calleeRef" "\<not> isFullApplySite literalFive"
    "isFullApplySite applyWithFive" "\<not> isFullApplySite (otherInst 103 0)"
    by (simp_all add: isFullApplySite_def calleeRef_def literalFive_def applyWithFive_def
        otherInst_def)
  show ?thesis
    using isProfitableToInline_caller [OF assms(2,3), of phase ndebug service] assms(1)
    by (simp add: collectInitialCandidates_def collectLoop.simps getNext_def newDominanceOrder_def
        visitCallerInst_def t da b tr k callerBlock_def)
qed

lemma collectAppliesToInline_caller:
  assumes "getEligibleFunction (callerEnv phase ndebug service) (callerModule callee) applyWithFive
             = Some 1"
    and "getInlineStrategy callee = InlineDefault"
    and "blocks callee = [entryBlock, trueBlock, joinBlock]"
  shows "collectAppliesToInline (callerEnv phase ndebug service) (callerModule callee) 0 A
           = Some (A @ [applyWithFive])"
  using collectInitialCandidates_caller [OF assms]
  by (simp add: collectAppliesToInline_def getReferencedFunction_def applyWithFive_def
      CallsToCalleeThreshold_def)



lemma attributedGlobalInit_body:
  "getInlineStrategy attributedGlobalInit = InlineDefault"
  "blocks attributedGlobalInit = [entryBlock, trueBlock, joinBlock]"
  "shouldOptimize attributedGlobalInit"
  "isGlobalInit attributedGlobalInit" "hasEffectsKind attributedGlobalInit"
  by (simp_all add: attributedGlobalInit_def joinCallee_def emptyFunction_def)

lemma getEligibleFunction_attributedGlobalInit:
  "getEligibleFunction (callerEnv NoGlobalInit ndebug service) (callerModule attributedGlobalInit)
       applyWithFive
     = Some 1"
  by (simp add: getEligibleFunction_def getReferencedFunction_def hasSubstitutions_def
      skippedByAttributes_def hasSemanticsAttrs_def calleeIsSelfRecursive_def isFullApplySite_def
      callerEnv_def callerModule_def attributedGlobalInit_def joinCallee_def emptyFunction_def
      entryBlock_def trueBlock_def joinBlock_def builtinInst_def otherInst_def applyWithFive_def
      exampleEnv_def)


lemma getEligibleFunction_selfCall:
  "getEligibleFunction (callerEnv phase ndebug service) (callerModule callee) selfCall = None"
  by (simp add: getEligibleFunction_def getReferencedFunction_def hasSubstitutions_def
      skippedByAttributes_def hasSemanticsAttrs_def selfCall_def)

section \<open>Ineligible call sites\<close>

lemma ineligible_cases:
  assumes "getReferencedFunction site = Some Callee"
    and "getFunction site = Callee
         \<or> (isFragile (M (getFunction site)) \<and> \<not> isFragile (M Callee))
         \<or> calleeIsSelfRecursive M Callee"
  shows "getEligibleFunction env M site = None"
  using assms by (auto simp: getEligibleFunction_def)

lemma collectAppliesToInline_eligible:
  assumes "collectAppliesToInline env M Caller [] = Some applies"
  shows "\<forall>s\<in>set applies. getEligibleFunction env M s \<noteq> None"
proof -
  from assms obtain candidates cnt where c: "collectInitialCandidates env M Caller = Some candidates"
    and k: "copyCandidates env cnt candidates [] = Some applies"
    by (auto simp: collectAppliesToInline_def split: option.splits)
  have e: "\<forall>s\<in>set candidates. getEligibleFunction env M s \<noteq> None"
    by (rule collectInitialCandidates_eligible [OF c])
  then have "\<forall>s\<in>set candidates. getReferencedFunction s \<noteq> None"
    using eligible_referenced by fastforce
  from copyCandidates_filter [OF this, of env cnt "[]"] k e show ?thesis by auto
qed

lemma availability_hasSemanticsAttrs:
  "hasSemanticsAttrThatStartsWith Callee s \<Longrightarrow> hasSemanticsAttrs Callee"
  by (cases "semanticsAttrs Callee")
     (simp_all add: hasSemanticsAttrThatStartsWith_def hasSemanticsAttrs_def)

lemma skippedByAttributes_spec:
  "skippedByAttributes env Callee \<longleftrightarrow>
     specSkippedInPhase (WhatToInline env) Callee
     \<and> \<not> (WhatToInline env = NoGlobalInit \<and> isGlobalInit Callee
            \<and> (hasSemanticsAttrs Callee \<or> hasEffectsKind Callee)
            \<and> \<not> hasSemanticsAttrThatStartsWith Callee ''availability'')"
  using availability_hasSemanticsAttrs [of Callee "''availability''"]
  by (cases "WhatToInline env") (auto simp: skippedByAttributes_def specSkippedInPhase_def)

lemma rejected_is_specIneligible:
  "getEligibleFunction env M site = None \<Longrightarrow> specIneligible env M site"
  by (auto simp: getEligibleFunction_def specIneligible_def skippedByAttributes_spec
      split: option.splits if_splits)

lemma specIneligible_rejected:
  assumes "specIneligible env M site"
    and "\<not> (\<exists>Callee. getReferencedFunction site = Some Callee
              \<and> WhatToInline env = NoGlobalInit \<and> isGlobalInit (M Callee)
              \<and> (hasSemanticsAttrs (M Callee) \<or> hasEffectsKind (M Callee)))"
  shows "getEligibleFunction env M site = None"
  using assms
  by (auto simp: getEligibleFunction_def specIneligible_def skippedByAttributes_spec
      split: option.splits)

lemma specIneligible_never_collected:
  assumes "specIneligible env M site"
    and "\<not> (\<exists>Callee. getReferencedFunction site = Some Callee
              \<and> WhatToInline env = NoGlobalInit \<and> isGlobalInit (M Callee)
              \<and> (hasSemanticsAttrs (M Callee) \<or> hasEffectsKind (M Callee)))"
    and "collectAppliesToInline env M Caller [] = Some applies"
  shows "site \<notin> set applies"
  using specIneligible_rejected [OF assms(1,2)] collectAppliesToInline_eligible [OF assms(3)]
  by auto

text \<open>
  C7. The call sites that \<^verbatim>\<open>getEligibleFunction\<close> rejects are not collected
  (\<open>collectAppliesToInline_eligible\<close>); among them are the call of a function
  to itself, the call of a fragile caller to a callee that is not fragile and
  the call to a callee that calls itself (\<open>ineligible_cases\<close>), for every
  configuration. The filter rejects what the rules of the specification reject
  (\<open>specIneligible_rejected\<close>) with one exception. In the phase that is to skip
  the global initializers (\<^verbatim>\<open>createPerfInliner\<close>: an inliner pass that does not
  inline functions that are marked with the \<^verbatim>\<open>global_init\<close> attribute), the test
  for a global initializer is the \<^verbatim>\<open>else\<close> branch of the test for semantics and
  effects attributes (lines 524-538), and is not made for a callee that has such
  an attribute. On the example caller, with a callee that is a global
  initializer and has an effects attribute, the call site is ineligible by the
  rules of the specification, and the filter returns the callee, the collector
  returns the call site and the driver splices it: the blocks of the callee are
  in the caller afterwards.
\<close>

theorem attributed_global_init_inlined:
  "WhatToInline (callerEnv NoGlobalInit False appendBlocks) = NoGlobalInit
   \<and> getReferencedFunction applyWithFive = Some 1
   \<and> isGlobalInit (callerModule attributedGlobalInit 1)
   \<and> hasEffectsKind (callerModule attributedGlobalInit 1)
   \<and> specIneligible (callerEnv NoGlobalInit False appendBlocks)
         (callerModule attributedGlobalInit) applyWithFive
   \<and> getEligibleFunction (callerEnv NoGlobalInit False appendBlocks)
         (callerModule attributedGlobalInit) applyWithFive = Some 1
   \<and> collectAppliesToInline (callerEnv NoGlobalInit False appendBlocks)
         (callerModule attributedGlobalInit) 0 [] = Some [applyWithFive]
   \<and> blocks (callerModule attributedGlobalInit 0) = [callerBlock]
   \<and> (\<exists>st'. inlineCallsIntoFunction (callerEnv NoGlobalInit False appendBlocks) 0
                  \<lparr>silModule = callerModule attributedGlobalInit, NumFunctionsInlined = 0\<rparr>
                = Some (True, st')
            \<and> blocks (silModule st' 0) = [callerBlock, entryBlock, trueBlock, joinBlock]
            \<and> NumFunctionsInlined st' = 1)"
proof -
  let ?env = "callerEnv NoGlobalInit False appendBlocks"
  let ?M = "callerModule attributedGlobalInit"
  have phase: "WhatToInline ?env = NoGlobalInit" "\<not> NDEBUG ?env"
    "inlineFunction ?env = appendBlocks"
    "recursivelyDeleteTriviallyDeadInstructions ?env = (\<lambda>M _. M)"
    by (simp_all add: callerEnv_def exampleEnv_def)
  have r: "getReferencedFunction applyWithFive = Some 1"
    by (simp add: getReferencedFunction_def applyWithFive_def)
  have m: "?M 1 = attributedGlobalInit" "blocks (?M 0) = [callerBlock]" "shouldOptimize (?M 0)"
    by (simp_all add: callerModule_def emptyFunction_def)
  have s: "specIneligible ?env ?M applyWithFive"
    using r phase(1) m(1) attributedGlobalInit_body(4)
    by (simp add: specIneligible_def specSkippedInPhase_def)
  note e = getEligibleFunction_attributedGlobalInit [of False appendBlocks]
  note c = collectAppliesToInline_caller [OF e attributedGlobalInit_body(1,2), of "[]"]
  have "inlineCallsIntoFunction ?env 0 \<lparr>silModule = ?M, NumFunctionsInlined = 0\<rparr>
          = Some (True, \<lparr>silModule = ?M(0 := (?M 0)\<lparr>blocks := blocks (?M 0) @ blocks (?M 1)\<rparr>),
                          NumFunctionsInlined = 1\<rparr>)"
    using c r m(1,3) attributedGlobalInit_body(3) phase(2,3,4)
    by (simp add: inlineCallsIntoFunction_def appendBlocks_def)
  then have "\<exists>st'. inlineCallsIntoFunction ?env 0 \<lparr>silModule = ?M, NumFunctionsInlined = 0\<rparr>
                = Some (True, st')
            \<and> blocks (silModule st' 0) = [callerBlock, entryBlock, trueBlock, joinBlock]
            \<and> NumFunctionsInlined st' = 1"
    using m(1,2) attributedGlobalInit_body(2) by simp
  with phase(1) r m(1,2) attributedGlobalInit_body(4,5) s e c show ?thesis by simp
qed

section \<open>The result of the driver\<close>

lemma eligible_shouldOptimize:
  "getEligibleFunction env M site = Some Callee \<Longrightarrow> shouldOptimize (M Callee)"
  by (auto simp: getEligibleFunction_def split: option.splits if_splits)

lemma inlineCallsIntoFunction_true_iff_candidates:
  assumes "inlineCallsIntoFunction env Caller st = Some (b, st')"
  shows "b \<longleftrightarrow> shouldOptimize (silModule st Caller)
               \<and> (\<exists>applies. collectAppliesToInline env (silModule st) Caller [] = Some applies
                      \<and> applies \<noteq> [])"
  using assms
  by (auto simp: inlineCallsIntoFunction_def split: option.splits if_splits)

lemma inlineCallsIntoFunction_false_unchanged:
  assumes "inlineCallsIntoFunction env Caller st = Some (False, st')"
  shows "st' = st"
  using assms
  by (auto simp: inlineCallsIntoFunction_def split: option.splits if_splits)

lemma inlineCallsIntoFunction_with_asserts:
  assumes nd: "\<not> NDEBUG env"
    and run: "inlineCallsIntoFunction env Caller st = Some (True, st')"
  shows "\<exists>site rest Callee.
           collectAppliesToInline env (silModule st) Caller [] = Some (site # rest)
           \<and> getReferencedFunction site = Some Callee
           \<and> fst (inlineFunction env (silModule st) Caller Callee site (getArguments site))"
proof -
  from run obtain applies where
    c: "collectAppliesToInline env (silModule st) Caller [] = Some applies"
    and ne: "applies \<noteq> []"
    and i: "inlineApplies env Caller applies st = Some st'"
    by (auto simp: inlineCallsIntoFunction_def split: option.splits if_splits)
  from ne obtain site rest where a: "applies = site # rest"
    by (cases applies) auto
  from collectAppliesToInline_eligible [OF c] a obtain Callee where
    e: "getEligibleFunction env (silModule st) site = Some Callee"
    by auto
  note r = eligible_referenced [OF e] and so = eligible_shouldOptimize [OF e]
  have "fst (inlineFunction env (silModule st) Caller Callee site (getArguments site))"
    using i nd r so unfolding a
    by (cases "inlineFunction env (silModule st) Caller Callee site (getArguments site)")
       (auto split: if_splits)
  with c a r show ?thesis by blast
qed



end
